theory Spec2Isabelle
  imports Complex_Main "HOL-Library.Sublist" "HOL-Library.Multiset"
begin

section \<open>Scene records\<close>

text \<open>
  A scene is a Python dictionary.  \<^verbatim>\<open>sequence_selection.py\<close> reads every key with
  \<^verbatim>\<open>scene.get(key, default)\<close>, so a key may be absent: each field the code reads is
  an option, \<open>None\<close> standing for the absent key.  A Python float is a finite IEEE
  double, held as the real number it denotes; the integer parameters are Python ints.
\<close>

record classification =
  res_action_type :: string
  res_confidence :: real
  res_is_action :: bool
  res_all_scores :: "(string \<times> real) list option"

record scene =
  scene_number :: nat
  video_path :: "string option"
  start_time :: "real option"
  end_time :: "real option"
  duration :: "real option"
  action_type :: "string option"
  action_confidence :: "real option"
  is_action_scene :: "bool option"
  segment_results :: "classification list option"
  all_scores :: "(string \<times> real) list option"

text \<open>\<^verbatim>\<open>scene.get('is_action_scene', False)\<close>, \<^verbatim>\<open>scene.get('action_confidence', 0.0)\<close>,
  \<^verbatim>\<open>scene.get('duration', 0.0)\<close> and \<^verbatim>\<open>scene.get('action_type', 'unknown')\<close>.\<close>

definition get_is_action_scene :: "scene \<Rightarrow> bool" where
  "get_is_action_scene s = (case is_action_scene s of None \<Rightarrow> False | Some b \<Rightarrow> b)"

definition get_action_confidence :: "scene \<Rightarrow> real" where
  "get_action_confidence s = (case action_confidence s of None \<Rightarrow> 0 | Some c \<Rightarrow> c)"

definition get_duration :: "scene \<Rightarrow> real" where
  "get_duration s = (case duration s of None \<Rightarrow> 0 | Some d \<Rightarrow> d)"

definition get_action_type :: "scene \<Rightarrow> string" where
  "get_action_type s = (case action_type s of None \<Rightarrow> ''unknown'' | Some t \<Rightarrow> t)"

section \<open>Python floats\<close>

text \<open>
  Python's \<^verbatim>\<open>+\<close>, \<^verbatim>\<open>-\<close>, \<^verbatim>\<open>*\<close> and \<^verbatim>\<open>/\<close> on floats return the exact result rounded
  to the nearest double, ties going to the even significand.  A double has a significand
  of 53 bits: rounding scales the number into the interval from \<open>2^52\<close> to \<open>2^53\<close>, rounds
  it to an integer there and scales it back.  Comparisons are exact.  The model has the
  finite doubles only, with no bound on the exponent: overflow to infinity, underflow
  and NaN are not part of it.
\<close>

definition round_half_even :: "real \<Rightarrow> real" where
  "round_half_even x =
     (let f = \<lfloor>x\<rfloor>; r = x - of_int f
      in if r < 1/2 then of_int f
         else if 1/2 < r then of_int (f + 1)
         else if even f then of_int f else of_int (f + 1))"

function double_round_pos :: "real \<Rightarrow> real" where
  "double_round_pos x =
     (if x \<le> 0 then 0
      else if 2 ^ 53 \<le> x then 2 * double_round_pos (x / 2)
      else if x < 2 ^ 52 then double_round_pos (2 * x) / 2
      else round_half_even x)"
  by pat_completeness auto
termination
proof (relation "measure (\<lambda>x. nat \<bar>\<lfloor>log 2 x\<rfloor> - 52\<bar>)", goal_cases)
  case 1
  show ?case by simp
next
  case (2 x)
  then have pos: "0 < x" and big: "2 ^ 53 \<le> x" by simp_all
  from big have "53 \<le> log 2 x"
    using le_log_of_power[of 2 53 x] by simp
  then have "53 \<le> \<lfloor>log 2 x\<rfloor>" by linarith
  moreover have "log 2 (x / 2) = log 2 x - 1"
    using pos by (simp add: log_divide_pos)
  ultimately show ?case by simp
next
  case (3 x)
  then have pos: "0 < x" and small: "x < 2 ^ 52" by simp_all
  from small pos have "log 2 x < 52"
    by (simp add: log_less_iff powr_realpow)
  then have "\<lfloor>log 2 x\<rfloor> \<le> 51" by linarith
  moreover have "log 2 (2 * x) = 1 + log 2 x"
    using pos by (simp add: log_mult_pos)
  ultimately show ?case by simp
qed

declare double_round_pos.simps [simp del]

definition double_round :: "real \<Rightarrow> real" where
  "double_round x = (if x < 0 then - double_round_pos (- x) else double_round_pos x)"

definition double_add :: "real \<Rightarrow> real \<Rightarrow> real" where
  "double_add x y = double_round (x + y)"

definition double_sub :: "real \<Rightarrow> real \<Rightarrow> real" where
  "double_sub x y = double_round (x - y)"

definition double_mul :: "real \<Rightarrow> real \<Rightarrow> real" where
  "double_mul x y = double_round (x * y)"

definition double_div :: "real \<Rightarrow> real \<Rightarrow> real" where
  "double_div x y = double_round (x / y)"

section \<open>Python built-ins used by the selection code\<close>

text \<open>\<^verbatim>\<open>sorted(xs, key=k, reverse=True)\<close>: a stable sort into descending key order
  (Python keeps the original order of elements with equal keys, also under
  \<^verbatim>\<open>reverse=True\<close>).\<close>

definition py_sorted_reverse :: "('a \<Rightarrow> real) \<Rightarrow> 'a list \<Rightarrow> 'a list" where
  "py_sorted_reverse k xs = sort_key (\<lambda>x. - k x) xs"

text \<open>The slices \<^verbatim>\<open>xs[:n]\<close> and \<^verbatim>\<open>xs[n:]\<close> for a Python int \<open>n\<close>: a negative
  bound counts from the end of the list and is clamped at its start.\<close>

definition py_take :: "int \<Rightarrow> 'a list \<Rightarrow> 'a list" where
  "py_take n xs = (if 0 \<le> n then take (nat n) xs else take (length xs - nat (- n)) xs)"

definition py_drop :: "int \<Rightarrow> 'a list \<Rightarrow> 'a list" where
  "py_drop n xs = (if 0 \<le> n then drop (nat n) xs else drop (length xs - nat (- n)) xs)"

text \<open>\<^verbatim>\<open>int(x)\<close> on a float truncates towards zero.\<close>

definition py_int :: "real \<Rightarrow> int" where
  "py_int x = (if 0 \<le> x then \<lfloor>x\<rfloor> else \<lceil>x\<rceil>)"

datatype py_error = KeyError | ValueError

text \<open>\<^verbatim>\<open>max(xs, key=k)\<close>: the first element with the largest key; \<^verbatim>\<open>ValueError\<close> on
  an empty list.\<close>

fun py_max_key :: "('a \<Rightarrow> real) \<Rightarrow> 'a list \<Rightarrow> py_error + 'a" where
  "py_max_key k [] = Inl ValueError"
| "py_max_key k (x # xs) = Inr (foldl (\<lambda>b y. if k b < k y then y else b) x xs)"

section \<open>\<^verbatim>\<open>SequenceSelection\<close>\<close>

subsection \<open>\<^verbatim>\<open>filter_action_scenes\<close>\<close>

definition filter_action_scenes :: "scene list \<Rightarrow> real \<Rightarrow> real \<Rightarrow> real \<Rightarrow> scene list" where
  "filter_action_scenes scenes min_confidence min_duration max_duration =
     [scene \<leftarrow> scenes.
        get_is_action_scene scene \<and>
        get_action_confidence scene \<ge> min_confidence \<and>
        (min_duration \<le> get_duration scene \<and> get_duration scene \<le> max_duration)]"

subsection \<open>\<^verbatim>\<open>rank_scenes_by_action_intensity\<close>\<close>

definition rank_scenes_by_action_intensity :: "scene list \<Rightarrow> scene list" where
  "rank_scenes_by_action_intensity scenes = py_sorted_reverse get_action_confidence scenes"

subsection \<open>\<^verbatim>\<open>ensure_action_diversity\<close>\<close>

text \<open>\<^verbatim>\<open>len(type_counter)\<close>: the number of distinct action types of the scenes.\<close>

definition num_action_types :: "scene list \<Rightarrow> nat" where
  "num_action_types scenes = length (remdups (map get_action_type scenes))"

text \<open>The ceiling in force: the caller's \<^verbatim>\<open>max_per_type\<close>, or, when it is \<^verbatim>\<open>None\<close>,
  the value computed from the average group size.\<close>

definition effective_max_per_type :: "scene list \<Rightarrow> int option \<Rightarrow> int \<Rightarrow> int" where
  "effective_max_per_type scenes max_per_type min_per_type =
     (case max_per_type of
        Some m \<Rightarrow> m
      | None \<Rightarrow>
          if num_action_types scenes > 0 then
            (let avg_per_type = double_div (real (length scenes)) (real (num_action_types scenes))
             in max (py_int (double_mul avg_per_type 1.5)) (min_per_type + 1))
          else int (length scenes))"

text \<open>\<^verbatim>\<open>scenes_by_type\<close> is a dictionary, iterated in insertion order: an association
  list whose keys stand in the order in which they were first inserted.\<close>

type_synonym scene_groups = "(string \<times> scene list) list"

fun group_append :: "scene \<Rightarrow> scene_groups \<Rightarrow> scene_groups" where
  "group_append s [] = [(get_action_type s, [s])]"
| "group_append s ((t, ss) # g) =
     (if t = get_action_type s then (t, ss @ [s]) # g else (t, ss) # group_append s g)"

definition group_by_type :: "scene list \<Rightarrow> scene_groups" where
  "group_by_type scenes = foldl (\<lambda>g s. group_append s g) [] scenes"

text \<open>The first loop over \<^verbatim>\<open>scenes_by_type.items()\<close>: the state is the list
  \<^verbatim>\<open>balanced_scenes\<close>; the result also holds the dictionary with every group replaced
  by its remainder.\<close>

fun floor_pass :: "int \<Rightarrow> scene_groups \<Rightarrow> scene list \<Rightarrow> scene list \<times> scene_groups" where
  "floor_pass min_per_type [] balanced_scenes = (balanced_scenes, [])"
| "floor_pass min_per_type ((t, type_scenes) # g) balanced_scenes =
     (let type_scenes' = py_sorted_reverse get_action_confidence type_scenes;
          (b, g') = floor_pass min_per_type g (balanced_scenes @ py_take min_per_type type_scenes')
      in (b, (t, py_drop min_per_type type_scenes') # g'))"

text \<open>The second loop: the state is the list \<^verbatim>\<open>remaining_scenes\<close>.\<close>

fun ceiling_pass :: "int \<Rightarrow> int \<Rightarrow> scene_groups \<Rightarrow> scene list \<Rightarrow> scene list" where
  "ceiling_pass max_per_type min_per_type [] remaining_scenes = remaining_scenes"
| "ceiling_pass max_per_type min_per_type ((t, type_scenes) # g) remaining_scenes =
     (let can_add = max_per_type - min_per_type
      in if can_add > 0
         then ceiling_pass max_per_type min_per_type g
                (remaining_scenes @ py_take can_add type_scenes)
         else ceiling_pass max_per_type min_per_type g remaining_scenes)"

definition ensure_action_diversity :: "scene list \<Rightarrow> int option \<Rightarrow> int \<Rightarrow> scene list" where
  "ensure_action_diversity scenes max_per_type min_per_type =
     (let max_per_type' = effective_max_per_type scenes max_per_type min_per_type;
          scenes_by_type = group_by_type scenes;
          (balanced_scenes, scenes_by_type') = floor_pass min_per_type scenes_by_type [];
          remaining_scenes = ceiling_pass max_per_type' min_per_type scenes_by_type' [];
          remaining_scenes' = py_sorted_reverse get_action_confidence remaining_scenes
      in balanced_scenes @ remaining_scenes')"

subsection \<open>\<^verbatim>\<open>select_sequences_for_supercut\<close>\<close>

text \<open>The packing loop.  Its state is \<^verbatim>\<open>(final_selection, current_duration)\<close>;
  \<^verbatim>\<open>continue\<close> goes on with the state unchanged, \<^verbatim>\<open>break\<close> returns the state.  The
  literal \<^verbatim>\<open>1.2\<close> is the double nearest to \<open>1.2\<close>.\<close>

fun pack_loop :: "real \<Rightarrow> scene list \<Rightarrow> scene list \<times> real \<Rightarrow> scene list \<times> real" where
  "pack_loop target_duration [] (final_selection, current_duration) =
     (final_selection, current_duration)"
| "pack_loop target_duration (scene # rest) (final_selection, current_duration) =
     (let scene_duration = get_duration scene
      in if double_add current_duration scene_duration
              > double_mul target_duration (double_round 1.2)
         then pack_loop target_duration rest (final_selection, current_duration)
         else
           (let final_selection' = final_selection @ [scene];
                current_duration' = double_add current_duration scene_duration
            in if current_duration' \<ge> target_duration
               then (final_selection', current_duration')
               else pack_loop target_duration rest (final_selection', current_duration')))"

definition select_sequences_for_supercut ::
  "scene list \<Rightarrow> real \<Rightarrow> real \<Rightarrow> real \<Rightarrow> real \<Rightarrow> bool \<Rightarrow> int option \<Rightarrow> scene list" where
  "select_sequences_for_supercut scenes target_duration min_confidence min_duration
       max_duration ensure_diversity max_per_type =
     (let filtered_scenes =
            filter_action_scenes scenes min_confidence min_duration max_duration
      in if filtered_scenes = [] then []
         else
           (let ranked_scenes = rank_scenes_by_action_intensity filtered_scenes;
                selected_scenes =
                  (if ensure_diversity
                   then ensure_action_diversity ranked_scenes max_per_type 1
                   else ranked_scenes)
            in fst (pack_loop target_duration selected_scenes ([], 0))))"

text \<open>The value of \<^verbatim>\<open>current_duration\<close> that the function logs on return: the
  durations of the selection added up from \<^verbatim>\<open>0.0\<close> in selection order, each addition
  rounded.\<close>

definition total_duration :: "scene list \<Rightarrow> real" where
  "total_duration scenes = foldl double_add 0 (map get_duration scenes)"

section \<open>\<^verbatim>\<open>ActionRecognition.analyze_scene\<close>\<close>

text \<open>The \<^verbatim>\<open>while\<close> loop that cuts a long scene into windows of five seconds.  In
  double arithmetic \<^verbatim>\<open>current_time + 5.0\<close> can be \<^verbatim>\<open>current_time\<close> again, and the loop
  then never ends: not returning is the value \<open>None\<close>.\<close>

partial_function (option) segments_loop ::
  "real \<Rightarrow> real \<Rightarrow> (real \<times> real) list \<Rightarrow> (real \<times> real) list option" where
  "segments_loop current_time end_t segments =
     (if current_time < double_sub end_t 1
      then (let segment_end = min (double_add current_time 5) end_t
            in segments_loop segment_end end_t (segments @ [(current_time, segment_end)]))
      else Some segments)"

text \<open>The classifier \<^verbatim>\<open>classify_action(video_path, start, end)\<close> runs a neural network;
  it is a parameter of the model.  A scene without one of the keys \<^verbatim>\<open>start_time\<close>,
  \<^verbatim>\<open>end_time\<close>, \<^verbatim>\<open>duration\<close> raises \<^verbatim>\<open>KeyError\<close>, and so does the short-scene branch
  on a classification without \<^verbatim>\<open>all_scores\<close>.  The result is \<open>None\<close> when the window
  loop does not end.\<close>

definition analyze_scene ::
  "(real \<Rightarrow> real \<Rightarrow> classification) \<Rightarrow> scene \<Rightarrow> (py_error + scene) option" where
  "analyze_scene classify_action scene_info =
     (case start_time scene_info of None \<Rightarrow> Some (Inl KeyError) | Some start_t \<Rightarrow>
     (case end_time scene_info of None \<Rightarrow> Some (Inl KeyError) | Some end_t \<Rightarrow>
     (case duration scene_info of None \<Rightarrow> Some (Inl KeyError) | Some dur \<Rightarrow>
        if dur > 10 then
          (case segments_loop start_t end_t [] of
             None \<Rightarrow> None
           | Some segments \<Rightarrow>
              (let segment_results' =
                     map (\<lambda>(seg_start, seg_end). classify_action seg_start seg_end) segments
               in (case py_max_key res_confidence segment_results' of
                     Inl e \<Rightarrow> Some (Inl e)
                   | Inr best_segment \<Rightarrow>
                       Some (Inr (scene_info\<lparr>action_type := Some (res_action_type best_segment),
                                   action_confidence := Some (res_confidence best_segment),
                                   is_action_scene := Some (res_is_action best_segment),
                                   segment_results := Some segment_results'\<rparr>)))))
        else
          (let result = classify_action start_t end_t
           in (case res_all_scores result of
                 None \<Rightarrow> Some (Inl KeyError)
               | Some scores \<Rightarrow>
                   Some (Inr (scene_info\<lparr>action_type := Some (res_action_type result),
                                   action_confidence := Some (res_confidence result),
                                   is_action_scene := Some (res_is_action result),
                                   all_scores := Some scores\<rparr>)))))))"

section \<open>The specification's description of the balancer and of absent fields\<close>

text \<open>
  The definitions of this section follow the words of the specification, to be compared
  with the code above.  Categories are discovered in the order of their first appearance;
  a category's group holds its scenes in input order; phase A takes the floor from each
  group's ranking, group after group in discovery order; phase B takes the surplus of
  each group and ranks the merged surplus.
\<close>

primrec discovery_order :: "'a list \<Rightarrow> 'a list" where
  "discovery_order [] = []"
| "discovery_order (x # xs) = x # removeAll x (discovery_order xs)"

definition type_group :: "scene list \<Rightarrow> string \<Rightarrow> scene list" where
  "type_group scenes t = filter (\<lambda>s. get_action_type s = t) scenes"

definition spec_phase_a :: "scene list \<Rightarrow> int \<Rightarrow> scene list" where
  "spec_phase_a scenes m =
     concat (map (\<lambda>t. py_take m (py_sorted_reverse get_action_confidence (type_group scenes t)))
                 (discovery_order (map get_action_type scenes)))"

definition spec_phase_b :: "scene list \<Rightarrow> int \<Rightarrow> int \<Rightarrow> scene list" where
  "spec_phase_b scenes M m =
     py_sorted_reverse get_action_confidence
       (concat (map (\<lambda>t. if M - m > 0
                          then py_take (M - m)
                                 (py_drop m (py_sorted_reverse get_action_confidence
                                               (type_group scenes t)))
                          else [])
                    (discovery_order (map get_action_type scenes))))"

text \<open>A scene with every absent field among the action flag, the confidence and the
  duration filled in with its default: \<open>False\<close>, \<open>0.0\<close> and \<open>0.0\<close>.\<close>

definition with_defaults :: "scene \<Rightarrow> scene" where
  "with_defaults s =
     s\<lparr>is_action_scene := Some (case is_action_scene s of None \<Rightarrow> False | Some b \<Rightarrow> b),
       action_confidence := Some (case action_confidence s of None \<Rightarrow> 0 | Some c \<Rightarrow> c),
       duration := Some (case duration s of None \<Rightarrow> 0 | Some d \<Rightarrow> d)\<rparr>"

section \<open>Example scenes\<close>

text \<open>The three scenes of the specification's scenario: a chase of 15 seconds with
  confidence 0.85, a fight of 20 seconds with confidence 0.92 and a chase of 5 seconds
  with confidence 0.40, all marked as action scenes.\<close>

definition chase_scene :: scene where
  "chase_scene = \<lparr>scene_number = 1, video_path = Some ''mi.mp4'',
     start_time = Some 10, end_time = Some 25, duration = Some 15,
     action_type = Some ''chase'', action_confidence = Some 0.85,
     is_action_scene = Some True, segment_results = None, all_scores = None\<rparr>"

definition fight_scene :: scene where
  "fight_scene = \<lparr>scene_number = 2, video_path = Some ''mi.mp4'',
     start_time = Some 45, end_time = Some 65, duration = Some 20,
     action_type = Some ''fight'', action_confidence = Some 0.92,
     is_action_scene = Some True, segment_results = None, all_scores = None\<rparr>"

definition weak_chase_scene :: scene where
  "weak_chase_scene = \<lparr>scene_number = 3, video_path = Some ''mi.mp4'',
     start_time = Some 70, end_time = Some 75, duration = Some 5,
     action_type = Some ''chase'', action_confidence = Some 0.40,
     is_action_scene = Some True, segment_results = None, all_scores = None\<rparr>"

definition example_scenes :: "scene list" where
  "example_scenes = [chase_scene, fight_scene, weak_chase_scene]"

text \<open>The same three scenes as the ranker orders them.\<close>

definition ranked_scenes :: "scene list" where
  "ranked_scenes = [fight_scene, chase_scene, weak_chase_scene]"

text \<open>An action scene without the keys \<^verbatim>\<open>start_time\<close>, \<^verbatim>\<open>end_time\<close> and
  \<^verbatim>\<open>duration\<close>, and a scene that has nothing but its number.\<close>

definition untimed_scene :: scene where
  "untimed_scene = \<lparr>scene_number = 4, video_path = Some ''mi.mp4'',
     start_time = None, end_time = None, duration = None,
     action_type = Some ''stunts'', action_confidence = Some 0.5,
     is_action_scene = Some True, segment_results = None, all_scores = None\<rparr>"

definition bare_scene :: scene where
  "bare_scene = \<lparr>scene_number = 5, video_path = None,
     start_time = None, end_time = None, duration = None,
     action_type = None, action_confidence = None,
     is_action_scene = None, segment_results = None, all_scores = None\<rparr>"

text \<open>Two scenes whose durations add up, exactly, to a little more than \<open>7 * 1.2\<close>:
  six seconds, and what Python computes for \<^verbatim>\<open>12.4 - 10.0\<close>.\<close>

definition six_second_scene :: scene where
  "six_second_scene = \<lparr>scene_number = 6, video_path = Some ''mi.mp4'',
     start_time = Some 4, end_time = Some 10, duration = Some 6,
     action_type = Some ''chase'', action_confidence = Some 0.9,
     is_action_scene = Some True, segment_results = None, all_scores = None\<rparr>"

definition remainder_scene :: scene where
  "remainder_scene = \<lparr>scene_number = 7, video_path = Some ''mi.mp4'',
     start_time = Some 10, end_time = Some (double_round 12.4),
     duration = Some (double_sub (double_round 12.4) 10),
     action_type = Some ''fight'', action_confidence = Some 0.8,
     is_action_scene = Some True, segment_results = None, all_scores = None\<rparr>"

text \<open>Two scenes of 1.5 and 2.1 seconds: the doubles \<^verbatim>\<open>1.5 + 2.1\<close> and \<^verbatim>\<open>3 * 1.2\<close>
  differ, although the exact sum and the exact product agree.\<close>

definition brief_scene :: scene where
  "brief_scene = \<lparr>scene_number = 8, video_path = Some ''mi.mp4'',
     start_time = Some 0, end_time = Some (3/2), duration = Some (3/2),
     action_type = Some ''fight'', action_confidence = Some 0.9,
     is_action_scene = Some True, segment_results = None, all_scores = None\<rparr>"

definition overflowing_scene :: scene where
  "overflowing_scene = \<lparr>scene_number = 9, video_path = Some ''mi.mp4'',
     start_time = Some 2, end_time = Some (double_round 4.1),
     duration = Some (double_round 2.1),
     action_type = Some ''chase'', action_confidence = Some 0.8,
     is_action_scene = Some True, segment_results = None, all_scores = None\<rparr>"

text \<open>A scene whose times are so large that adding five seconds to its start does not
  change the start.\<close>

definition stalled_scene :: scene where
  "stalled_scene = \<lparr>scene_number = 10, video_path = Some ''mi.mp4'',
     start_time = Some 100000000000000000, end_time = Some 200000000000000000,
     duration = Some 100000000000000000,
     action_type = None, action_confidence = None,
     is_action_scene = None, segment_results = None, all_scores = None\<rparr>"

text \<open>A classifier for the examples: a chase of confidence 0.5 before second 15, a
  fight of confidence 0.9 from second 15 and of confidence 0.7 from second 20.\<close>

definition example_classifier :: "real \<Rightarrow> real \<Rightarrow> classification" where
  "example_classifier seg_start seg_end =
     \<lparr>res_action_type = (if seg_start < 15 then ''chase'' else ''fight''),
      res_confidence = (if seg_start < 15 then 0.5 else if seg_start < 20 then 0.9 else 0.7),
      res_is_action = True,
      res_all_scores = Some []\<rparr>"

text \<open>The chase scene after \<^verbatim>\<open>analyze_scene\<close> under that classifier.\<close>

definition analyzed_chase_scene :: scene where
  "analyzed_chase_scene =
     chase_scene\<lparr>action_type := Some ''fight'', action_confidence := Some 0.9,
       is_action_scene := Some True,
       segment_results := Some [example_classifier 10 15, example_classifier 15 20,
                                example_classifier 20 25]\<rparr>"

section \<open>Rounding to a double\<close>

lemma round_half_even_int [simp]: "round_half_even (of_int n) = of_int n"
  by (simp add: round_half_even_def)

lemma round_half_even_cases:
  obtains (down) "round_half_even x = of_int \<lfloor>x\<rfloor>" "x - of_int \<lfloor>x\<rfloor> \<le> 1/2"
        | (up) "round_half_even x = of_int (\<lfloor>x\<rfloor> + 1)" "1/2 \<le> x - of_int \<lfloor>x\<rfloor>"
proof -
  let ?r = "x - of_int \<lfloor>x\<rfloor>"
  consider "?r < 1/2" | "1/2 < ?r" | "?r = 1/2" "even \<lfloor>x\<rfloor>" | "?r = 1/2" "odd \<lfloor>x\<rfloor>"
    by fastforce
  then show thesis
  proof cases
    case 1
    then have "round_half_even x = of_int \<lfloor>x\<rfloor>"
      by (simp add: round_half_even_def Let_def)
    with 1 show ?thesis by (intro down) simp_all
  next
    case 2
    then have "round_half_even x = of_int (\<lfloor>x\<rfloor> + 1)"
      by (simp add: round_half_even_def Let_def)
    with 2 show ?thesis by (intro up) simp_all
  next
    case 3
    then have "round_half_even x = of_int \<lfloor>x\<rfloor>"
      by (simp add: round_half_even_def Let_def)
    with 3 show ?thesis by (intro down) simp_all
  next
    case 4
    then have "round_half_even x = of_int (\<lfloor>x\<rfloor> + 1)"
      by (simp add: round_half_even_def Let_def)
    with 4 show ?thesis by (intro up) simp_all
  qed
qed

lemma round_half_even_error: "\<bar>round_half_even x - x\<bar> \<le> 1/2"
proof (cases x rule: round_half_even_cases)
  case down
  then show ?thesis by linarith
next
  case up
  then show ?thesis by simp
qed

lemma round_half_even_ge: "of_int n \<le> x \<Longrightarrow> of_int n \<le> round_half_even x"
proof -
  assume "of_int n \<le> x"
  then have "n \<le> \<lfloor>x\<rfloor>" by (simp add: le_floor_iff)
  then have "(of_int n :: real) \<le> of_int \<lfloor>x\<rfloor>" by (simp only: of_int_le_iff)
  then show ?thesis by (cases x rule: round_half_even_cases) simp_all
qed

lemma round_half_even_le: "x \<le> of_int n \<Longrightarrow> round_half_even x \<le> of_int n"
proof -
  assume a: "x \<le> of_int n"
  then have "\<lfloor>x\<rfloor> \<le> n" by (simp add: floor_le_iff)
  show ?thesis
  proof (cases "\<lfloor>x\<rfloor> = n")
    case True
    with a have "x = of_int n" by linarith
    then show ?thesis by simp
  next
    case False
    with \<open>\<lfloor>x\<rfloor> \<le> n\<close> have "\<lfloor>x\<rfloor> + 1 \<le> n" by simp
    then have "of_int (\<lfloor>x\<rfloor> + 1) \<le> (of_int n :: real)" by (simp only: of_int_le_iff)
    then show ?thesis by (cases x rule: round_half_even_cases) simp_all
  qed
qed

lemma round_half_even_Ints: "round_half_even x \<in> \<int>"
  by (cases x rule: round_half_even_cases) simp_all

lemma double_round_pos_nonpos: "x \<le> 0 \<Longrightarrow> double_round_pos x = 0"
  by (subst double_round_pos.simps) simp

lemma double_round_pos_base:
  "2 ^ 52 \<le> x \<Longrightarrow> x < 2 ^ 53 \<Longrightarrow> double_round_pos x = round_half_even x"
  by (subst double_round_pos.simps) simp

lemma double_round_pos_double: "double_round_pos (2 * x) = 2 * double_round_pos x"
proof (cases "0 < x")
  case False
  then show ?thesis by (simp add: double_round_pos_nonpos)
next
  case True
  show ?thesis
  proof (cases "(2::real) ^ 53 \<le> 2 * x")
    case big: True
    with True show ?thesis by (subst double_round_pos.simps) simp
  next
    case small: False
    with True have "double_round_pos x = double_round_pos (2 * x) / 2"
      by (subst double_round_pos.simps) simp
    then show ?thesis by simp
  qed
qed

lemma double_round_pos_scale: "double_round_pos (x * 2 ^ k) = double_round_pos x * 2 ^ k"
proof (induction k)
  case 0
  then show ?case by simp
next
  case (Suc k)
  have "double_round_pos (x * 2 ^ Suc k) = double_round_pos (2 * (x * 2 ^ k))"
    by (simp add: mult.commute mult.left_commute)
  also have "\<dots> = 2 * double_round_pos (x * 2 ^ k)" by (rule double_round_pos_double)
  finally show ?case by (simp add: Suc)
qed

lemma double_round_pos_up:
  assumes "2 ^ 52 \<le> x * 2 ^ k" and "x * 2 ^ k < 2 ^ 53"
  shows "double_round_pos x = round_half_even (x * 2 ^ k) / 2 ^ k"
proof -
  have "double_round_pos x * 2 ^ k = round_half_even (x * 2 ^ k)"
    using double_round_pos_base[OF assms] by (simp add: double_round_pos_scale)
  then show ?thesis by (simp add: field_simps)
qed

lemma double_round_pos_down:
  assumes "2 ^ 52 \<le> x / 2 ^ k" and "x / 2 ^ k < 2 ^ 53"
  shows "double_round_pos x = round_half_even (x / 2 ^ k) * 2 ^ k"
proof -
  have "double_round_pos (x / 2 ^ k * 2 ^ k) = double_round_pos (x / 2 ^ k) * 2 ^ k"
    by (rule double_round_pos_scale)
  then show ?thesis using double_round_pos_base[OF assms] by simp
qed

lemma double_round_pos_positive: "0 < x \<Longrightarrow> 0 < double_round_pos x"
proof (induction x rule: double_round_pos.induct)
  case (1 x)
  show ?case
  proof (cases "(2::real) ^ 53 \<le> x")
    case True
    with 1 have "0 < double_round_pos (x / 2)" by simp
    with True 1 show ?thesis by (subst double_round_pos.simps) simp
  next
    case nb: False
    show ?thesis
    proof (cases "x < 2 ^ 52")
      case True
      with 1 nb have "0 < double_round_pos (2 * x)" by simp
      with True nb 1 show ?thesis by (subst double_round_pos.simps) simp
    next
      case False
      then have "of_int (2 ^ 52) \<le> x" by simp
      then have "of_int (2 ^ 52) \<le> round_half_even x" by (rule round_half_even_ge)
      then have "0 < round_half_even x" by simp
      with False nb show ?thesis by (simp add: double_round_pos_base)
    qed
  qed
qed

lemma double_round_pos_error: "0 < x \<Longrightarrow> x < 2 ^ 53 \<Longrightarrow> \<bar>double_round_pos x - x\<bar> \<le> 1/2"
proof (induction x rule: double_round_pos.induct)
  case (1 x)
  show ?case
  proof (cases "x < 2 ^ 52")
    case True
    with 1 have "\<bar>double_round_pos (2 * x) - 2 * x\<bar> \<le> 1/2" by simp
    moreover from True 1 have "double_round_pos x = double_round_pos (2 * x) / 2"
      by (subst double_round_pos.simps) simp
    ultimately show ?thesis by linarith
  next
    case False
    with 1 have "double_round_pos x = round_half_even x"
      by (simp add: double_round_pos_base)
    then show ?thesis using round_half_even_error[of x] by simp
  qed
qed

lemma double_round_pos_Ints:
  "0 < x \<Longrightarrow> x \<le> 2 ^ 53 \<Longrightarrow> x \<in> \<int> \<Longrightarrow> double_round_pos x = x"
proof (induction x rule: double_round_pos.induct)
  case (1 x)
  show ?case
  proof (cases "(2::real) ^ 53 \<le> x")
    case True
    with 1 have x: "x = 2 ^ 53" by simp
    have "double_round_pos (2 ^ 52) = round_half_even (of_int (2 ^ 52))"
      by (simp add: double_round_pos_base)
    then have "double_round_pos (2 ^ 52) = 2 ^ 52" by (simp only: round_half_even_int) simp
    moreover have "double_round_pos x = 2 * double_round_pos (2 ^ 52)"
      unfolding x by (subst double_round_pos.simps) simp
    ultimately show ?thesis by (simp add: x)
  next
    case nb: False
    show ?thesis
    proof (cases "x < 2 ^ 52")
      case True
      from "1.prems"(3) have "2 * x \<in> \<int>" by (intro Ints_mult) simp_all
      with 1 nb True have "double_round_pos (2 * x) = 2 * x" by simp
      moreover from True 1 have "double_round_pos x = double_round_pos (2 * x) / 2"
        by (subst double_round_pos.simps) simp
      ultimately show ?thesis by simp
    next
      case False
      from "1.prems"(3) obtain n where "x = of_int n" by (auto simp: Ints_def)
      with False nb show ?thesis by (simp add: double_round_pos_base)
    qed
  qed
qed

lemma double_round_pos_idem: "double_round_pos (double_round_pos x) = double_round_pos x"
proof (induction x rule: double_round_pos.induct)
  case (1 x)
  show ?case
  proof (cases "x \<le> 0")
    case True
    then show ?thesis by (simp add: double_round_pos_nonpos)
  next
    case pos: False
    show ?thesis
    proof (cases "(2::real) ^ 53 \<le> x")
      case True
      with pos have e: "double_round_pos x = 2 * double_round_pos (x / 2)"
        by (subst double_round_pos.simps) simp
      from 1(1) pos True have "double_round_pos (double_round_pos (x / 2)) = double_round_pos (x / 2)"
        by simp
      then show ?thesis by (simp add: e double_round_pos_double)
    next
      case nb: False
      show ?thesis
      proof (cases "x < 2 ^ 52")
        case True
        with pos have e: "double_round_pos (2 * x) = 2 * double_round_pos x"
          by (simp add: double_round_pos_double)
        from 1(2) pos nb True
        have "double_round_pos (double_round_pos (2 * x)) = double_round_pos (2 * x)" by simp
        then show ?thesis by (simp add: e double_round_pos_double)
      next
        case False
        with nb have b: "double_round_pos x = round_half_even x"
          by (simp add: double_round_pos_base)
        from False have "of_int (2 ^ 52) \<le> x" by simp
        then have "of_int (2 ^ 52) \<le> round_half_even x" by (rule round_half_even_ge)
        then have lo: "0 < round_half_even x" by simp
        from nb have "x \<le> of_int (2 ^ 53)" by simp
        then have "round_half_even x \<le> of_int (2 ^ 53)" by (rule round_half_even_le)
        then have hi: "round_half_even x \<le> 2 ^ 53" by simp
        from double_round_pos_Ints[OF lo hi round_half_even_Ints] b show ?thesis by simp
      qed
    qed
  qed
qed

lemma double_round_0 [simp]: "double_round 0 = 0"
  by (simp add: double_round_def double_round_pos_nonpos)

lemma double_round_pos_sign: "0 < x \<Longrightarrow> 0 < double_round x"
  by (simp add: double_round_def double_round_pos_positive)

lemma double_round_neg_sign: "x < 0 \<Longrightarrow> double_round x < 0"
  by (simp add: double_round_def double_round_pos_positive)

lemma double_round_nonneg: "0 \<le> x \<Longrightarrow> 0 \<le> double_round x"
  using double_round_pos_sign[of x] by (cases "x = 0") auto

lemma double_round_nonpos: "x \<le> 0 \<Longrightarrow> double_round x \<le> 0"
  using double_round_neg_sign[of x] by (cases "x = 0") auto

lemma double_round_minus: "double_round (- x) = - double_round x"
  by (cases "x = 0") (auto simp: double_round_def double_round_pos_nonpos)

lemma double_round_idem [simp]: "double_round (double_round x) = double_round x"
proof (cases "x < 0")
  case True
  then have "double_round x < 0" by (rule double_round_neg_sign)
  then show ?thesis using True
    by (simp add: double_round_def double_round_pos_idem)
next
  case False
  then have "0 \<le> double_round x" by (simp add: double_round_nonneg)
  then show ?thesis using False
    by (simp add: double_round_def double_round_pos_idem)
qed

lemma double_round_error: "\<bar>x\<bar> < 2 ^ 53 \<Longrightarrow> \<bar>double_round x - x\<bar> \<le> 1/2"
proof (cases "x < 0")
  case True
  assume "\<bar>x\<bar> < 2 ^ 53"
  with True double_round_pos_error[of "- x"] have "\<bar>double_round_pos (- x) - (- x)\<bar> \<le> 1/2"
    by simp
  moreover from True have "double_round x = - double_round_pos (- x)"
    by (simp add: double_round_def)
  ultimately show ?thesis by linarith
next
  case False
  assume "\<bar>x\<bar> < 2 ^ 53"
  with False double_round_pos_error[of x] show ?thesis
    by (cases "x = 0") (simp_all add: double_round_def double_round_pos_nonpos)
qed

lemma double_round_Ints: "x \<in> \<int> \<Longrightarrow> \<bar>x\<bar> \<le> 2 ^ 53 \<Longrightarrow> double_round x = x"
proof (cases "x < 0")
  case True
  assume "x \<in> \<int>" "\<bar>x\<bar> \<le> 2 ^ 53"
  with True double_round_pos_Ints[of "- x"] show ?thesis
    by (simp add: double_round_def)
next
  case False
  assume "x \<in> \<int>" "\<bar>x\<bar> \<le> 2 ^ 53"
  with False double_round_pos_Ints[of x] show ?thesis
    by (cases "x = 0") (simp_all add: double_round_def double_round_pos_nonpos)
qed

lemma double_round_numeral [simp]:
  "numeral n \<le> (2 ^ 53 :: real) \<Longrightarrow> double_round (numeral n) = numeral n"
  by (rule double_round_Ints) simp_all

subsection \<open>The exponent of a positive number\<close>

lemma scale_exists:
  fixes x :: real
  assumes "0 < x" and "x < 2 ^ 52"
  shows "\<exists>k::nat. 1 \<le> k \<and> 2 ^ 52 \<le> x * 2 ^ k \<and> x * 2 ^ k < 2 ^ 53"
proof -
  from real_arch_pow[of 2 "2 ^ 52 / x"] obtain j :: nat where "2 ^ 52 / x < 2 ^ j" by auto
  with assms(1) have ex: "\<exists>k::nat. 2 ^ 52 \<le> x * 2 ^ k"
    by (auto simp: field_simps intro!: exI[of _ j])
  define k where "k = (LEAST k::nat. 2 ^ 52 \<le> x * 2 ^ k)"
  from ex have lo: "2 ^ 52 \<le> x * 2 ^ k" unfolding k_def by (rule LeastI_ex)
  have "k \<noteq> 0"
  proof
    assume "k = 0"
    with lo assms(2) show False by simp
  qed
  then obtain i where i: "k = Suc i" by (cases k) auto
  then have "i < k" by simp
  then have "\<not> 2 ^ 52 \<le> x * 2 ^ i" unfolding k_def by (rule not_less_Least)
  then have "x * 2 ^ k < 2 ^ 53" unfolding i by simp
  with lo i show ?thesis by (intro exI[of _ k]) simp
qed

lemma double_round_scaled:
  assumes "2 ^ 52 \<le> x * 2 ^ k" and "x * 2 ^ k < 2 ^ 53"
  shows "double_round x = round_half_even (x * 2 ^ k) / 2 ^ k"
proof -
  have "0 < x * 2 ^ k" using assms(1) by (rule less_le_trans[rotated]) simp
  then have "0 < x" by (simp add: zero_less_mult_iff)
  then show ?thesis
    using double_round_pos_up[OF assms] by (simp add: double_round_def)
qed

lemma round_half_even_tie:
  assumes "even z"
  shows "round_half_even (of_int z - 1/2) = of_int z"
proof -
  have f: "\<lfloor>of_int z - 1/2 :: real\<rfloor> = z - 1" by linarith
  from assms have "odd (z - 1)" by simp
  then show ?thesis unfolding round_half_even_def Let_def f by simp
qed

lemma round_half_even_quarter: "round_half_even (of_int z - 1/4) = of_int z"
proof -
  have f: "\<lfloor>of_int z - 1/4 :: real\<rfloor> = z - 1" by linarith
  show ?thesis unfolding round_half_even_def Let_def f by simp
qed

lemma double_1_2: "double_round 1.2 = 5404319552844595 / 4503599627370496"
  by (simp add: double_round_def double_round_pos_up[where k=52] round_half_even_def)

lemma double_1_2_pos: "0 < double_round 1.2"
  by (rule double_round_pos_sign) simp

lemma bound_nonneg: "0 \<le> t \<Longrightarrow> 0 \<le> double_mul t (double_round 1.2)"
  unfolding double_mul_def using double_1_2_pos
  by (intro double_round_nonneg mult_nonneg_nonneg) simp_all

lemma bound_nonpos: "t \<le> 0 \<Longrightarrow> double_mul t (double_round 1.2) \<le> 0"
  unfolding double_mul_def using double_1_2_pos
  by (intro double_round_nonpos mult_nonpos_nonneg) simp_all

lemma bound_neg: "t < 0 \<Longrightarrow> double_mul t (double_round 1.2) < 0"
  unfolding double_mul_def using double_1_2_pos
  by (intro double_round_neg_sign mult_neg_pos) simp_all

subsection \<open>Quotient and product of the ceiling\<close>

text \<open>The floor of a quotient of two naturals times 1.5, computed in doubles, is the
  floor of the exact value \<open>3 L / (2 n)\<close>, for \<open>L\<close> up to \<open>2^50\<close>.  Both roundings together
  move the value by less than \<open>1 / (2 n)\<close>, the distance from a non-integer multiple of
  \<open>1 / (2 n)\<close> to the next integer; and when the exact value is an integer \<open>m\<close>, the
  quotient \<open>2 m / 3\<close> is rounded by a third of a unit at most, after which the product is
  rounded back to \<open>m\<close>.\<close>

lemma ceiling_exact:
  fixes L n :: nat
  assumes n: "0 < n" and L: "L \<le> 2 ^ 50"
  shows "\<lfloor>double_mul (double_div (real L) (real n)) 1.5\<rfloor> = \<lfloor>real L / real n * 1.5\<rfloor>"
proof (cases "L = 0")
  case True
  then show ?thesis by (simp add: double_mul_def double_div_def)
next
  case False
  define q where "q = real L / real n"
  define e where "e = q * 1.5"
  define m where "m = \<lfloor>e\<rfloor>"
  define d where "d = 1 / (2 * real n)"
  from False n have qpos: "0 < q" by (simp add: q_def)
  from L have "real L \<le> real (2 ^ 50)" by (simp only: of_nat_le_iff)
  then have Lr: "real L \<le> 2 ^ 50" by simp
  from n have "1 \<le> real n" by simp
  then have "real L \<le> real L * real n" by (simp add: mult_le_cancel_left1)
  with n have "q \<le> real L" by (simp add: q_def field_simps)
  with Lr have qlt: "q < 2 ^ 52" by simp
  from scale_exists[OF qpos qlt] obtain k :: nat where k1: "1 \<le> k"
    and lo: "2 ^ 52 \<le> q * 2 ^ k" and hi: "q * 2 ^ k < 2 ^ 53" by blast
  define K :: real where "K = 2 ^ k"
  have Kpos: "0 < K" by (simp add: K_def)
  define A where "A = round_half_even (q * K)"
  have a: "double_div (real L) (real n) = A / K"
    unfolding double_div_def A_def K_def q_def[symmetric] using lo hi
    by (rule double_round_scaled)
  have Aerr: "\<bar>A - q * K\<bar> \<le> 1/2" unfolding A_def by (rule round_half_even_error)
  from round_half_even_Ints[of "q * K"] obtain Ai where Ai: "A = of_int Ai"
    unfolding A_def by (auto elim: Ints_cases)
  have Alo: "2 ^ 52 \<le> A"
    using round_half_even_ge[of "2 ^ 52" "q * K"] lo unfolding A_def K_def by simp
  have Ahi: "A \<le> 2 ^ 53"
    using round_half_even_le[of "q * K" "2 ^ 53"] hi unfolding A_def K_def by simp
  define p where "p = A / K * 1.5"
  define b where "b = double_round p"
  have res: "double_mul (double_div (real L) (real n)) 1.5 = b"
    unfolding double_mul_def a b_def p_def ..
  have pK: "p * K = A * (3/2)" unfolding p_def using Kpos by simp
  have eK: "e * K = q * K * (3/2)" unfolding e_def by simp
  have Kn: "4 * real n \<le> K"
  proof -
    from lo n have "2 ^ 52 * real n \<le> real L * K"
      unfolding q_def K_def by (simp add: field_simps)
    also have "\<dots> \<le> 2 ^ 50 * K" using Lr Kpos by (intro mult_right_mono) simp_all
    finally show ?thesis by simp
  qed
  from k1 obtain i where i: "k = Suc i" by (cases k) auto
  define K' :: real where "K' = 2 ^ i"
  have KK': "K = 2 * K'" unfolding K_def K'_def i by simp
  have K'pos: "0 < K'" by (simp add: K'_def)
  text \<open>The second rounding, on the grid of \<open>p\<close>.\<close>
  have grid: "(b * K = round_half_even (p * K) \<and> p * K < 2 ^ 53) \<or>
              (b * K' = round_half_even (p * K') \<and> 2 ^ 53 \<le> p * K)"
  proof (cases "p * K < 2 ^ 53")
    case True
    from Alo pK have "2 ^ 52 \<le> p * K" by simp
    from double_round_scaled[of p k] this True have "b = round_half_even (p * K) / K"
      unfolding b_def K_def by simp
    with Kpos True show ?thesis by simp
  next
    case False
    from pK KK' have pK': "p * K' = A * (3/4)" by simp
    from False have "2 ^ 53 \<le> 2 * (p * K')" unfolding KK' by (simp add: algebra_simps)
    then have "2 ^ 52 \<le> p * K'" by (simp add: mult.commute)
    moreover from Ahi pK' have "p * K' < 2 ^ 53" by simp
    ultimately have "b = round_half_even (p * K') / K'"
      using double_round_scaled[of p i] unfolding b_def K'_def by simp
    with K'pos False show ?thesis by simp
  qed
  have err2: "\<bar>b * K - p * K\<bar> \<le> 1"
  proof -
    from grid show ?thesis
    proof
      assume "b * K = round_half_even (p * K) \<and> p * K < 2 ^ 53"
      with round_half_even_error[of "p * K"] show ?thesis by simp
    next
      assume "b * K' = round_half_even (p * K') \<and> 2 ^ 53 \<le> p * K"
      with round_half_even_error[of "p * K'"] have h: "\<bar>b * K' - p * K'\<bar> \<le> 1/2" by simp
      define x where "x = b * K' - p * K'"
      have eq: "b * K - p * K = 2 * x" unfolding KK' x_def by (simp add: algebra_simps)
      from h have "\<bar>x\<bar> \<le> 1/2" unfolding x_def .
      then show ?thesis unfolding eq by (simp add: abs_mult)
    qed
  qed
  have err1: "\<bar>p * K - e * K\<bar> \<le> 3/4"
  proof -
    define y where "y = A - q * K"
    have eq: "p * K - e * K = y * (3/2)" unfolding pK eK y_def by (simp add: algebra_simps)
    from Aerr have "\<bar>y\<bar> \<le> 1/2" unfolding y_def .
    then show ?thesis unfolding eq by (simp add: abs_mult)
  qed
  have "\<bar>(b - e) * K\<bar> \<le> 7/4"
  proof -
    define u where "u = b * K - p * K"
    define v where "v = p * K - e * K"
    have eq: "(b - e) * K = u + v" unfolding u_def v_def by (simp add: algebra_simps)
    from err1 err2 have "\<bar>u\<bar> \<le> 1" "\<bar>v\<bar> \<le> 3/4" unfolding u_def v_def by simp_all
    then show ?thesis unfolding eq by linarith
  qed
  then have "\<bar>b - e\<bar> * K \<le> 7/4" using Kpos by (simp add: abs_mult)
  then have err: "\<bar>b - e\<bar> \<le> 7 / (4 * K)" using Kpos by (simp add: field_simps)
  have small: "7 / (4 * K) < d" unfolding d_def using Kn n Kpos by (simp add: field_simps)
  have e2n: "e * (2 * real n) = 3 * real L"
    unfolding e_def q_def using n by simp
  have dn: "d * (2 * real n) = 1" unfolding d_def using n by simp
  have m_le: "of_int m \<le> e" and m_gt: "e < of_int m + 1" unfolding m_def by linarith+
  text \<open>The exact product is a multiple of \<open>d\<close>.\<close>
  have upper: "e + d \<le> of_int m + 1"
  proof -
    from m_gt n have "e * (2 * real n) < (of_int m + 1) * (2 * real n)" by simp
    then have "(of_int (3 * int L) :: real) < of_int ((m + 1) * (2 * int n))"
      unfolding e2n by simp
    then have "3 * int L < (m + 1) * (2 * int n)" by (simp only: of_int_less_iff)
    then have "3 * int L + 1 \<le> (m + 1) * (2 * int n)" by simp
    then have "(of_int (3 * int L + 1) :: real) \<le> of_int ((m + 1) * (2 * int n))"
      by (simp only: of_int_le_iff)
    then have "e * (2 * real n) + d * (2 * real n) \<le> (of_int m + 1) * (2 * real n)"
      unfolding e2n dn by simp
    then have "(e + d) * (2 * real n) \<le> (of_int m + 1) * (2 * real n)"
      by (simp add: algebra_simps)
    with n show ?thesis by simp
  qed
  have lower: "of_int m + d \<le> e" if "of_int m \<noteq> e"
  proof -
    from that m_le have "of_int m < e" by simp
    with n have "of_int m * (2 * real n) < e * (2 * real n)" by simp
    then have "(of_int (m * (2 * int n)) :: real) < of_int (3 * int L)"
      unfolding e2n by simp
    then have "m * (2 * int n) < 3 * int L" by (simp only: of_int_less_iff)
    then have "m * (2 * int n) + 1 \<le> 3 * int L" by simp
    then have "(of_int (m * (2 * int n) + 1) :: real) \<le> of_int (3 * int L)"
      by (simp only: of_int_le_iff)
    then have "of_int m * (2 * real n) + d * (2 * real n) \<le> e * (2 * real n)"
      unfolding e2n dn by simp
    then have "(of_int m + d) * (2 * real n) \<le> e * (2 * real n)"
      by (simp add: algebra_simps)
    with n show ?thesis by simp
  qed
  have b_lt: "b < of_int m + 1" using err small upper by linarith
  have b_ge: "of_int m \<le> b"
  proof (cases "of_int m = e")
    case False
    from lower[OF False] err small show ?thesis by linarith
  next
    case True
    have mK: "of_int m * K = q * K * (3/2)" unfolding True eK[symmetric] ..
    have mKint: "of_int m * K = of_int (m * 2 ^ k)" unfolding K_def by simp
    have mK'int: "of_int m * K' = of_int (m * 2 ^ i)" unfolding K'_def by simp
    show ?thesis
    proof (cases "of_int m * K \<le> p * K")
      case ge: True
      from grid show ?thesis
      proof
        assume g: "b * K = round_half_even (p * K) \<and> p * K < 2 ^ 53"
        from ge have "of_int (m * 2 ^ k) \<le> p * K" unfolding mKint .
        then have "of_int (m * 2 ^ k) \<le> round_half_even (p * K)" by (rule round_half_even_ge)
        with g have "of_int m * K \<le> b * K" unfolding mKint by simp
        with Kpos show ?thesis by simp
      next
        assume g: "b * K' = round_half_even (p * K') \<and> 2 ^ 53 \<le> p * K"
        from ge have "of_int m * K' \<le> p * K'" unfolding KK' by simp
        then have "of_int (m * 2 ^ i) \<le> p * K'" unfolding mK'int .
        then have "of_int (m * 2 ^ i) \<le> round_half_even (p * K')" by (rule round_half_even_ge)
        with g have "of_int m * K' \<le> b * K'" unfolding mK'int by simp
        with K'pos show ?thesis by simp
      qed
    next
      case lt: False
      text \<open>The first rounding went down by a third; the second one is a tie, or
        three quarters, and goes up to \<open>m\<close>.\<close>
      define Mi where "Mi = m * 2 ^ k"
      define x :: real where "x = of_int Mi"
      define y :: real where "y = of_int Ai"
      have mx: "of_int m * K = x" unfolding x_def Mi_def mKint ..
      have Ay: "A = y" unfolding y_def Ai ..
      from lt have "y * (3/2) < x" unfolding pK mx Ay by linarith
      then have up: "3 * y < 2 * x" by linarith
      from up have "A < q * K" using mK unfolding mx Ay by linarith
      with Aerr have "q * K - 1/2 \<le> A" by linarith
      then have dn: "2 * x - 2 < 3 * y" using mK unfolding mx Ay by linarith
      from dn have "(of_int (2 * Mi - 2) :: real) < of_int (3 * Ai)"
        unfolding x_def y_def by simp
      then have "2 * Mi - 2 < 3 * Ai" by (simp only: of_int_less_iff)
      moreover from up have "(of_int (3 * Ai) :: real) < of_int (2 * Mi)"
        unfolding x_def y_def by simp
      then have "3 * Ai < 2 * Mi" by (simp only: of_int_less_iff)
      ultimately have "3 * Ai = 2 * Mi - 1" by simp
      then have "(of_int (3 * Ai) :: real) = of_int (2 * Mi - 1)" by (simp only:)
      then have "3 * y = 2 * x - 1" unfolding x_def y_def by simp
      then have "y * (3/2) = x - 1/2" by linarith
      then have tie: "p * K = of_int (m * 2 ^ k) - 1/2"
        unfolding pK Ay x_def Mi_def .
      from grid show ?thesis
      proof
        assume g: "b * K = round_half_even (p * K) \<and> p * K < 2 ^ 53"
        have "even (m * 2 ^ k)" unfolding i by simp
        from round_half_even_tie[OF this] g tie have "b * K = of_int m * K"
          unfolding mKint by simp
        with Kpos show ?thesis by simp
      next
        assume g: "b * K' = round_half_even (p * K') \<and> 2 ^ 53 \<le> p * K"
        from tie have "p * K' = of_int (m * 2 ^ i) - 1/4" unfolding KK' i by simp
        with round_half_even_quarter[of "m * 2 ^ i"] g have "b * K' = of_int m * K'"
          unfolding mK'int by simp
        with K'pos show ?thesis by simp
      qed
    qed
  qed
  from b_ge b_lt have "\<lfloor>b\<rfloor> = m" by linarith
  then show ?thesis unfolding res m_def e_def q_def .
qed

section \<open>Evaluating the examples\<close>

lemmas getter_defs =
  get_is_action_scene_def get_action_confidence_def get_duration_def get_action_type_def

lemmas example_defs =
  chase_scene_def fight_scene_def weak_chase_scene_def untimed_scene_def bare_scene_def

lemmas double_defs = double_add_def double_sub_def double_mul_def double_div_def

lemmas eval_defs =
  select_sequences_for_supercut_def filter_action_scenes_def
  rank_scenes_by_action_intensity_def py_sorted_reverse_def getter_defs double_defs Let_def

lemma bound_30: "double_mul 30 (double_round 1.2) = 36"
  unfolding double_1_2
  by (simp add: double_mul_def double_round_def double_round_pos_up[where k=47]
      round_half_even_def)

lemma bound_7: "double_mul 7 (double_round 1.2) = 4728779608739021 / 562949953421312"
  unfolding double_1_2
  by (simp add: double_mul_def double_round_def double_round_pos_up[where k=49]
      round_half_even_def)

lemma bound_minus_1: "double_mul (- 1) (double_round 1.2) = - (5404319552844595 / 4503599627370496)"
  using double_1_2 by (simp add: double_mul_def double_round_minus)

lemma double_12_4: "double_round 12.4 = 6980579422424269 / 562949953421312"
  by (simp add: double_round_def double_round_pos_up[where k=49] round_half_even_def)

lemma remainder_duration:
  "double_sub (double_round 12.4) 10 = 1351079888211149 / 562949953421312"
  unfolding double_12_4
  by (simp add: double_sub_def double_round_def double_round_pos_up[where k=51]
      round_half_even_def)

lemma six_plus_remainder:
  "double_add 6 (1351079888211149 / 562949953421312) = 4728779608739021 / 562949953421312"
  by (simp add: double_add_def double_round_def double_round_pos_up[where k=49]
      round_half_even_def)

lemma double_2_1: "double_round 2.1 = 4728779608739021 / 2251799813685248"
  by (simp add: double_round_def double_round_pos_up[where k=51] round_half_even_def)

lemma sum_1_5_2_1:
  "double_add (3/2) (4728779608739021 / 2251799813685248) = 8106479329266893 / 2251799813685248"
  by (simp add: double_add_def double_round_def double_round_pos_up[where k=51]
      round_half_even_def)

lemma bound_3: "double_mul 3 (double_round 1.2) = 2026619832316723 / 562949953421312"
  unfolding double_1_2
  by (simp add: double_mul_def double_round_def double_round_pos_up[where k=51]
      round_half_even_def)

lemma double_0_05: "double_round 0.05 = 3602879701896397 / 72057594037927936"
  by (simp add: double_round_def double_round_pos_up[where k=57] round_half_even_def)

lemma double_11_05: "double_round 11.05 = 3110298492652749 / 281474976710656"
  by (simp add: double_round_def double_round_pos_up[where k=49] round_half_even_def)

lemma end_minus_1:
  "double_sub (3110298492652749 / 281474976710656) 1 = 2828823515942093 / 281474976710656"
  by (simp add: double_sub_def double_round_def double_round_pos_up[where k=49]
      round_half_even_def)

lemma first_window_end:
  "double_add (3602879701896397 / 72057594037927936) 5 = 5685794529555251 / 1125899906842624"
  by (simp add: double_add_def double_round_def double_round_pos_up[where k=50]
      round_half_even_def)

lemma second_window_end:
  "double_add (5685794529555251 / 1125899906842624) 5 = 2828823515942093 / 281474976710656"
  by (simp add: double_add_def double_round_def double_round_pos_up[where k=49]
      round_half_even_def)

text \<open>The packer on scenes of 1.5 and 2.1 seconds with a target of 3 seconds: the second
  scene is skipped, because the double \<^verbatim>\<open>1.5 + 2.1\<close> is above the double \<^verbatim>\<open>3 * 1.2\<close>,
  although the exact sum is not above the exact product.\<close>

lemma example_pack_rounding:
  "pack_loop 3 [brief_scene, overflowing_scene] ([], 0) = ([brief_scene], 3/2) \<and>
   (3/2 + 2.1 :: real) \<le> 3 * 1.2"
proof -
  have d1: "get_duration brief_scene = 3/2"
    by (simp add: get_duration_def brief_scene_def)
  have d2: "get_duration overflowing_scene = 4728779608739021 / 2251799813685248"
    by (simp add: get_duration_def overflowing_scene_def double_2_1)
  have first: "double_add 0 (3/2) = 3/2"
    by (simp add: double_add_def double_round_def double_round_pos_up[where k=52]
        round_half_even_def)
  have "pack_loop 3 [brief_scene, overflowing_scene] ([], 0) = ([brief_scene], 3/2)"
    apply (simp only: pack_loop.simps Let_def d1 d2 first sum_1_5_2_1 bound_3)
    apply simp
    done
  then show ?thesis by simp
qed

lemma example_filter:
  "filter_action_scenes example_scenes 0.5 3 60 = [chase_scene, fight_scene]"
  by (simp add: example_scenes_def filter_action_scenes_def getter_defs example_defs)

lemma example_rank:
  "rank_scenes_by_action_intensity [chase_scene, fight_scene] = [fight_scene, chase_scene]"
  by (simp add: rank_scenes_by_action_intensity_def py_sorted_reverse_def getter_defs
      example_defs)

lemma example_pack:
  "pack_loop 30 [fight_scene, chase_scene] ([], 0) = ([fight_scene, chase_scene], 35)"
  using bound_30 by (simp add: getter_defs example_defs double_add_def)

lemma example_pack_first:
  "pack_loop 30 [fight_scene] ([], 0) = ([fight_scene], 20)"
  using bound_30 by (simp add: getter_defs example_defs double_add_def)

lemma example_select:
  "select_sequences_for_supercut example_scenes 30 0.5 3 60 False None
     = [fight_scene, chase_scene]"
  using example_filter example_rank example_pack
  by (simp add: select_sequences_for_supercut_def)

lemma example_total: "total_duration [fight_scene, chase_scene] = 35"
  by (simp add: total_duration_def getter_defs example_defs double_add_def)

lemma example_effective_max: "effective_max_per_type ranked_scenes None 1 = 2"
  by (simp add: ranked_scenes_def effective_max_per_type_def num_action_types_def
      py_int_def getter_defs example_defs double_div_def double_mul_def double_round_def
      double_round_pos_up[where k=52] double_round_pos_up[where k=51] round_half_even_def)

section \<open>The filter\<close>

text \<open>
  Claim C5.  \<^verbatim>\<open>filter_action_scenes\<close> keeps a scene if and only if its action flag is
  present and true, its confidence is at least \<open>min_confidence\<close> and its duration lies
  between \<open>min_duration\<close> and \<open>max_duration\<close>; the result is a subsequence of the input,
  so the surviving scenes stand in their input order and are the input's own records.
\<close>

theorem filter_action_scenes_keeps:
  "subseq (filter_action_scenes scenes mc mind maxd) scenes \<and>
   (\<forall>s. (s \<in> set (filter_action_scenes scenes mc mind maxd)) =
      (s \<in> set scenes \<and> is_action_scene s = Some True \<and> mc \<le> get_action_confidence s \<and>
       mind \<le> get_duration s \<and> get_duration s \<le> maxd)) \<and>
   filter_action_scenes scenes mc mind maxd =
     filter (\<lambda>s. is_action_scene s = Some True \<and> mc \<le> get_action_confidence s \<and>
                 mind \<le> get_duration s \<and> get_duration s \<le> maxd) scenes"
  by (auto simp: filter_action_scenes_def get_is_action_scene_def split: option.splits
      intro!: filter_cong)

section \<open>The ranker\<close>

lemma py_sorted_reverse_mset: "mset (py_sorted_reverse k xs) = mset xs"
  by (simp add: py_sorted_reverse_def)

lemma py_sorted_reverse_set: "set (py_sorted_reverse k xs) = set xs"
  by (simp add: py_sorted_reverse_def)

lemma length_py_sorted_reverse: "length (py_sorted_reverse k xs) = length xs"
  by (simp add: py_sorted_reverse_def)

lemma py_sorted_reverse_sorted:
  "sorted_wrt (\<lambda>x y. k x \<ge> k y) (py_sorted_reverse k xs)"
proof -
  have "sorted (map (\<lambda>x. - k x) (py_sorted_reverse k xs))"
    by (simp add: py_sorted_reverse_def)
  then show ?thesis by (simp add: sorted_wrt_map)
qed

lemma py_sorted_reverse_stable:
  "filter (\<lambda>x. k x = c) (py_sorted_reverse k xs) = filter (\<lambda>x. k x = c) xs"
proof -
  have "filter (\<lambda>x. - k x = - c) (sort_key (\<lambda>x. - k x) xs) = filter (\<lambda>x. - k x = - c) xs"
    by (rule sort_key_stable)
  then show ?thesis by (simp add: py_sorted_reverse_def)
qed

text \<open>
  Claim C6.  The ranker returns a permutation of its input in descending order of
  confidence, and it is stable: for every confidence value, the scenes of that
  confidence stand in the ranked list in the order they had in the input.
\<close>

theorem rank_scenes_stable_permutation:
  "mset (rank_scenes_by_action_intensity scenes) = mset scenes \<and>
   sorted_wrt (\<lambda>a b. get_action_confidence a \<ge> get_action_confidence b)
     (rank_scenes_by_action_intensity scenes) \<and>
   (\<forall>c. filter (\<lambda>s. get_action_confidence s = c) (rank_scenes_by_action_intensity scenes)
        = filter (\<lambda>s. get_action_confidence s = c) scenes)"
  unfolding rank_scenes_by_action_intensity_def
  using py_sorted_reverse_mset py_sorted_reverse_sorted py_sorted_reverse_stable by blast

text \<open>A subsequence of a ranked list is ranked already.\<close>

lemma subseq_sorted_map:
  assumes "subseq xs ys" and "sorted (map f ys)"
  shows "sorted (map f xs)"
proof -
  from assms(1) have "subseq (map f xs) (map f ys)" by (rule subseq_map)
  then obtain N where "map f xs = nths (map f ys) N" by (auto simp: subseq_conv_nths)
  with assms(2) show ?thesis by (simp add: sorted_nths)
qed

lemma subseq_set_subset: "subseq xs ys \<Longrightarrow> set xs \<subseteq> set ys"
  by (auto simp: subseq_conv_nths intro: subsetD[OF set_nths_subset])

lemma py_sorted_reverse_subseq_id:
  assumes "subseq xs (py_sorted_reverse k ys)"
  shows "py_sorted_reverse k xs = xs"
proof -
  have "sorted (map (\<lambda>x. - k x) (py_sorted_reverse k ys))"
    by (simp add: py_sorted_reverse_def)
  with assms have "sorted (map (\<lambda>x. - k x) xs)" by (rule subseq_sorted_map)
  then show ?thesis unfolding py_sorted_reverse_def by (rule sort_key_id_if_sorted)
qed

section \<open>The packing loop\<close>

lemma pack_loop_Cons_cases:
  obtains
    (skip) "double_add cur (get_duration x) > double_mul t (double_round 1.2)"
      "pack_loop t (x # xs) (sel, cur) = pack_loop t xs (sel, cur)"
  | (stop) "double_add cur (get_duration x) \<le> double_mul t (double_round 1.2)"
      "double_add cur (get_duration x) \<ge> t"
      "pack_loop t (x # xs) (sel, cur) = (sel @ [x], double_add cur (get_duration x))"
  | (accept) "double_add cur (get_duration x) \<le> double_mul t (double_round 1.2)"
      "double_add cur (get_duration x) < t"
      "pack_loop t (x # xs) (sel, cur)
         = pack_loop t xs (sel @ [x], double_add cur (get_duration x))"
  by (cases "double_add cur (get_duration x) > double_mul t (double_round 1.2)";
      cases "double_add cur (get_duration x) \<ge> t")
     (simp_all add: Let_def)

lemma total_duration_snoc:
  "total_duration (sel @ [x]) = double_add (total_duration sel) (get_duration x)"
  by (simp add: total_duration_def)

lemma pack_loop_total:
  "pack_loop t xs (sel, cur) = (sel', cur') \<Longrightarrow> cur = total_duration sel
     \<Longrightarrow> cur' = total_duration sel'"
proof (induction xs arbitrary: sel cur)
  case Nil
  then show ?case by auto
next
  case (Cons x xs)
  show ?case
  proof (cases rule: pack_loop_Cons_cases[where cur=cur and x=x and t=t and xs=xs and sel=sel])
    case skip
    with Cons.prems have "pack_loop t xs (sel, cur) = (sel', cur')" by simp
    then show ?thesis using Cons.prems(2) by (rule Cons.IH)
  next
    case stop
    with Cons.prems show ?thesis by (auto simp: total_duration_snoc)
  next
    case accept
    with Cons.prems
    have "pack_loop t xs (sel @ [x], double_add cur (get_duration x)) = (sel', cur')"
      and "double_add cur (get_duration x) = total_duration (sel @ [x])"
      by (simp_all add: total_duration_snoc)
    then show ?thesis by (rule Cons.IH)
  qed
qed

lemma pack_loop_bound:
  "pack_loop t xs (sel, cur) = (sel', cur')
     \<Longrightarrow> cur' \<le> double_mul t (double_round 1.2) \<or> (sel' = sel \<and> cur' = cur)"
proof (induction xs arbitrary: sel cur)
  case Nil
  then show ?case by simp
next
  case (Cons x xs)
  show ?case
  proof (cases rule: pack_loop_Cons_cases[where cur=cur and x=x and t=t and xs=xs and sel=sel])
    case skip
    with Cons show ?thesis by simp
  next
    case stop
    with Cons.prems show ?thesis by simp
  next
    case accept
    with Cons.prems
    have "pack_loop t xs (sel @ [x], double_add cur (get_duration x)) = (sel', cur')"
      by simp
    from Cons.IH[OF this] accept(1) show ?thesis by auto
  qed
qed

text \<open>The running total is a double whenever the loop starts from one.\<close>

lemma pack_loop_double:
  "pack_loop t xs (sel, cur) = (sel', cur') \<Longrightarrow> double_round cur = cur
     \<Longrightarrow> double_round cur' = cur'"
proof (induction xs arbitrary: sel cur)
  case Nil
  then show ?case by simp
next
  case (Cons x xs)
  have d: "double_round (double_add cur (get_duration x)) = double_add cur (get_duration x)"
    by (simp add: double_add_def)
  show ?case
  proof (cases rule: pack_loop_Cons_cases[where cur=cur and x=x and t=t and xs=xs and sel=sel])
    case skip
    with Cons.prems have "pack_loop t xs (sel, cur) = (sel', cur')" by simp
    then show ?thesis using Cons.prems(2) by (rule Cons.IH)
  next
    case stop
    with Cons.prems d show ?thesis by auto
  next
    case accept
    with Cons.prems
    have "pack_loop t xs (sel @ [x], double_add cur (get_duration x)) = (sel', cur')"
      by simp
    then show ?thesis using d by (rule Cons.IH)
  qed
qed

lemma pack_loop_extends:
  "pack_loop t xs (sel, cur) = (sel', cur') \<Longrightarrow> \<exists>ys. sel' = sel @ ys \<and> subseq ys xs"
proof (induction xs arbitrary: sel cur)
  case Nil
  then show ?case by simp
next
  case (Cons x xs)
  show ?case
  proof (cases rule: pack_loop_Cons_cases[where cur=cur and x=x and t=t and xs=xs and sel=sel])
    case skip
    with Cons.prems have "pack_loop t xs (sel, cur) = (sel', cur')" by simp
    from Cons.IH[OF this] show ?thesis by auto
  next
    case stop
    with Cons.prems have "sel' = sel @ [x]" by simp
    then show ?thesis by auto
  next
    case accept
    with Cons.prems
    have "pack_loop t xs (sel @ [x], double_add cur (get_duration x)) = (sel', cur')"
      by simp
    from Cons.IH[OF this] obtain ys where "sel' = (sel @ [x]) @ ys" "subseq ys xs" by blast
    then have "sel' = sel @ (x # ys) \<and> subseq (x # ys) (x # xs)" by simp
    then show ?thesis by blast
  qed
qed

lemma pack_loop_subseq: "subseq (fst (pack_loop t xs ([], 0))) xs"
proof -
  obtain sel cur where p: "pack_loop t xs ([], 0) = (sel, cur)" by fastforce
  from pack_loop_extends[OF p] p show ?thesis by auto
qed

text \<open>Walking the accepted scenes again, from the same total, repeats the same
  additions and comparisons: it accepts every one of them and ends at the same total.\<close>

lemma pack_loop_replay:
  "pack_loop t xs (sel0, cur0) = (sel', cur')
    \<Longrightarrow> pack_loop t (drop (length sel0) sel') (sel1, cur0)
          = (sel1 @ drop (length sel0) sel', cur')"
proof (induction xs arbitrary: sel0 cur0 sel1)
  case Nil
  then show ?case by auto
next
  case (Cons x xs)
  show ?case
  proof (cases rule: pack_loop_Cons_cases[where cur=cur0 and x=x and t=t and xs=xs and sel=sel0])
    case skip
    with Cons.prems have "pack_loop t xs (sel0, cur0) = (sel', cur')" by simp
    then show ?thesis by (rule Cons.IH)
  next
    case stop
    with Cons.prems have "sel' = sel0 @ [x]" "cur' = double_add cur0 (get_duration x)"
      by simp_all
    with stop(1,2) show ?thesis by (simp add: Let_def)
  next
    case accept
    with Cons.prems
    have p: "pack_loop t xs (sel0 @ [x], double_add cur0 (get_duration x)) = (sel', cur')"
      by simp
    from pack_loop_extends[OF p] obtain ys where ys: "sel' = (sel0 @ [x]) @ ys" by blast
    from Cons.IH[OF p, of "sel1 @ [x]"] ys
    have "pack_loop t ys (sel1 @ [x], double_add cur0 (get_duration x))
            = (sel1 @ [x] @ ys, cur')"
      by simp
    with accept(1,2) ys show ?thesis by (simp add: Let_def)
  qed
qed

lemma pack_loop_idem:
  "fst (pack_loop t (fst (pack_loop t xs ([], 0))) ([], 0)) = fst (pack_loop t xs ([], 0))"
proof -
  obtain sel cur where p: "pack_loop t xs ([], 0) = (sel, cur)" by fastforce
  from pack_loop_replay[OF p, of "[]"] p show ?thesis by simp
qed

text \<open>While the total stays below the target the walk has not stopped, and goes on
  into whatever follows.\<close>

lemma pack_loop_append:
  "snd (pack_loop t xs (sel, cur)) < t \<Longrightarrow>
   pack_loop t (xs @ zs) (sel, cur) = pack_loop t zs (pack_loop t xs (sel, cur))"
proof (induction xs arbitrary: sel cur)
  case Nil
  then show ?case by simp
next
  case (Cons x xs)
  show ?case
  proof (cases rule: pack_loop_Cons_cases[where cur=cur and x=x and t=t and xs=xs and sel=sel])
    case skip
    with Cons.prems have "snd (pack_loop t xs (sel, cur)) < t" by simp
    from Cons.IH[OF this] skip show ?thesis by simp
  next
    case stop
    with Cons.prems show ?thesis by simp
  next
    case accept
    with Cons.prems
    have "snd (pack_loop t xs (sel @ [x], double_add cur (get_duration x))) < t"
      by simp
    from Cons.IH[OF this] accept show ?thesis by (simp add: Let_def)
  qed
qed

text \<open>A walk that accepts nothing leaves the total as it was.\<close>

lemma pack_loop_unchanged:
  "pack_loop t xs (sel, cur) = (sel, cur') \<Longrightarrow> cur' = cur"
proof (induction xs)
  case Nil
  then show ?case by simp
next
  case (Cons x xs)
  show ?case
  proof (cases rule: pack_loop_Cons_cases[where cur=cur and x=x and t=t and xs=xs and sel=sel])
    case skip
    with Cons show ?thesis by simp
  next
    case stop
    with Cons.prems show ?thesis by simp
  next
    case accept
    with Cons.prems
    have "pack_loop t xs (sel @ [x], double_add cur (get_duration x)) = (sel, cur')"
      by simp
    from pack_loop_extends[OF this] show ?thesis by simp
  qed
qed

text \<open>Once a scene has been accepted with the total at the target or above it, the walk
  has stopped: what follows is never looked at.\<close>

lemma pack_loop_stopped:
  "pack_loop t xs (sel, cur) = (sel', cur') \<Longrightarrow> sel' \<noteq> sel \<Longrightarrow> t \<le> cur'
     \<Longrightarrow> pack_loop t (xs @ zs) (sel, cur) = (sel', cur')"
proof (induction xs arbitrary: sel cur)
  case Nil
  then show ?case by simp
next
  case (Cons x xs)
  show ?case
  proof (cases rule: pack_loop_Cons_cases[where cur=cur and x=x and t=t and xs=xs and sel=sel])
    case skip
    with Cons.prems have "pack_loop t xs (sel, cur) = (sel', cur')" by simp
    from Cons.IH[OF this Cons.prems(2,3)] skip(1) show ?thesis by (simp add: Let_def)
  next
    case stop
    with Cons.prems show ?thesis by (simp add: Let_def)
  next
    case accept
    with Cons.prems
    have p: "pack_loop t xs (sel @ [x], double_add cur (get_duration x)) = (sel', cur')"
      by simp
    have "sel' \<noteq> sel @ [x]"
    proof
      assume "sel' = sel @ [x]"
      with p have "cur' = double_add cur (get_duration x)"
        by (simp add: pack_loop_unchanged)
      with accept(2) Cons.prems(3) show False by simp
    qed
    from Cons.IH[OF p this Cons.prems(3)] accept(1,2) show ?thesis by (simp add: Let_def)
  qed
qed

lemma pack_loop_nothing_fits:
  "t \<le> 0 \<Longrightarrow> \<forall>x \<in> set xs. 0 < get_duration x \<Longrightarrow> pack_loop t xs (sel, 0) = (sel, 0)"
proof (induction xs)
  case Nil
  then show ?case by simp
next
  case (Cons x xs)
  then have "0 < double_add 0 (get_duration x)"
    by (simp add: double_add_def double_round_pos_sign)
  moreover from Cons.prems(1) have "double_mul t (double_round 1.2) \<le> 0"
    by (rule bound_nonpos)
  ultimately have "double_add 0 (get_duration x) > double_mul t (double_round 1.2)"
    by simp
  with Cons show ?case by (simp add: Let_def)
qed

lemma pack_untimed:
  assumes "duration s = None" and "0 \<le> t" and "snd (pack_loop t xs ([], 0)) < t"
  shows "pack_loop t (xs @ s # ys) ([], 0)
           = pack_loop t ys (fst (pack_loop t xs ([], 0)) @ [s], snd (pack_loop t xs ([], 0)))"
proof -
  obtain sel cur where p: "pack_loop t xs ([], 0) = (sel, cur)" by fastforce
  from pack_loop_bound[OF p] bound_nonneg[OF assms(2)]
  have "cur \<le> double_mul t (double_round 1.2)" by auto
  moreover from assms(3) p have "cur < t" by simp
  moreover from assms(1) have "get_duration s = 0" by (simp add: get_duration_def)
  moreover from pack_loop_double[OF p] have "double_round cur = cur" by simp
  ultimately have "pack_loop t (s # ys) (sel, cur) = pack_loop t ys (sel @ [s], cur)"
    by (simp add: Let_def double_add_def)
  with pack_loop_append[OF assms(3), of "s # ys"] p show ?thesis by simp
qed

lemma pack_untimed_skipped:
  assumes "duration s = None" and "t < 0"
  shows "pack_loop t (s # ys) (sel, 0) = pack_loop t ys (sel, 0)"
proof -
  from assms(1) have "get_duration s = 0" by (simp add: get_duration_def)
  moreover from assms(2) have "double_mul t (double_round 1.2) < 0" by (rule bound_neg)
  ultimately show ?thesis by (simp add: Let_def double_add_def)
qed

lemma select_total_bound:
  assumes "0 \<le> t \<or> select_sequences_for_supercut scenes t mc mind maxd dv mpt \<noteq> []"
  shows "total_duration (select_sequences_for_supercut scenes t mc mind maxd dv mpt)
           \<le> double_mul t (double_round 1.2)"
proof (cases "filter_action_scenes scenes mc mind maxd = []")
  case True
  then have "select_sequences_for_supercut scenes t mc mind maxd dv mpt = []"
    by (simp add: select_sequences_for_supercut_def)
  with assms bound_nonneg[of t] show ?thesis by (auto simp: total_duration_def)
next
  case False
  then obtain xs where
    sel: "select_sequences_for_supercut scenes t mc mind maxd dv mpt
            = fst (pack_loop t xs ([], 0))"
    by (simp add: select_sequences_for_supercut_def Let_def)
  obtain sel cur where p: "pack_loop t xs ([], 0) = (sel, cur)" by fastforce
  have "cur = total_duration sel"
    using pack_loop_total[OF p] by (simp add: total_duration_def)
  moreover have "cur \<le> double_mul t (double_round 1.2) \<or> (sel = [] \<and> cur = 0)"
    using pack_loop_bound[OF p] .
  ultimately show ?thesis using assms sel p bound_nonneg[of t] by auto
qed

text \<open>
  Claim C1, as the code has it.  The achieved total is the value of
  \<^verbatim>\<open>current_duration\<close>: the durations of the selection added up in double arithmetic.
  It is at most the double product \<^verbatim>\<open>target_duration * 1.2\<close> whenever the target is
  not negative or the selection is not empty (under a negative target the bound is
  negative, and the empty selection, of total zero, lies above it).  One step of the
  walk skips the scene and goes on exactly when the rounded sum of the running total
  and its duration is above the bound; otherwise it accepts the scene, and stops when
  the total has reached the target.
\<close>

theorem packing_bound:
  "(0 \<le> t \<or> select_sequences_for_supercut scenes t mc mind maxd dv mpt \<noteq> [] \<longrightarrow>
      total_duration (select_sequences_for_supercut scenes t mc mind maxd dv mpt)
        \<le> double_mul t (double_round 1.2)) \<and>
   snd (pack_loop t xs ([], 0)) = total_duration (fst (pack_loop t xs ([], 0))) \<and>
   pack_loop t (x # xs) (sel, cur) =
     (if double_add cur (get_duration x) > double_mul t (double_round 1.2)
      then pack_loop t xs (sel, cur)
      else if double_add cur (get_duration x) \<ge> t
      then (sel @ [x], double_add cur (get_duration x))
      else pack_loop t xs (sel @ [x], double_add cur (get_duration x)))"
proof -
  obtain s c where p: "pack_loop t xs ([], 0) = (s, c)" by fastforce
  from pack_loop_total[OF p] have "c = total_duration s" by (simp add: total_duration_def)
  with p select_total_bound[of t scenes mc mind maxd dv mpt] show ?thesis
    by (simp add: Let_def)
qed

theorem packing_bound_witness:
  "(0::real) \<le> 30 \<and>
   double_mul 30 (double_round 1.2) = 36 \<and>
   total_duration (select_sequences_for_supercut example_scenes 30 0.5 3 60 False None)
     \<le> 36 \<and>
   pack_loop 30 [fight_scene, chase_scene] ([], 0)
     = pack_loop 30 [chase_scene] ([fight_scene], 20)"
  using packing_bound[of 30 example_scenes "0.5" 3 60 False None "[chase_scene]"
      fight_scene "[]" 0] bound_30
  by (simp add: getter_defs example_defs double_add_def)

text \<open>Claim C1 as stated fails in two ways.  For a negative target: with a target of
  \<open>-1\<close> no example scene fits under the bound, the selection is empty and its total,
  zero, exceeds the bound.  And for the exact sum: with a target of 7 the scenes of
  6 and of \<^verbatim>\<open>12.4 - 10.0\<close> seconds are both selected, the rounded sum being the rounded
  bound, while the exact sum of the two durations is above the exact product
  \<open>7 * 1.2\<close>.\<close>

theorem packing_bound_negative_target:
  "select_sequences_for_supercut example_scenes (- 1) 0.5 3 60 False None = [] \<and>
   total_duration (select_sequences_for_supercut example_scenes (- 1) 0.5 3 60 False None)
     > double_mul (- 1) (double_round 1.2) \<and>
   select_sequences_for_supercut [six_second_scene, remainder_scene] 7 0.3 0 60 False None
     = [six_second_scene, remainder_scene] \<and>
   get_duration six_second_scene + get_duration remainder_scene > 7 * 1.2 \<and>
   total_duration [six_second_scene, remainder_scene] = double_mul 7 (double_round 1.2)"
proof -
  have "pack_loop (- 1) [fight_scene, chase_scene] ([], 0) = ([], 0)"
    using bound_minus_1 by (simp add: getter_defs example_defs double_add_def)
  then have a: "select_sequences_for_supercut example_scenes (- 1) 0.5 3 60 False None = []"
    using example_filter example_rank by (simp add: select_sequences_for_supercut_def)
  have b: "double_mul (- 1) (double_round 1.2) < 0"
    by (rule bound_neg) simp
  have r: "rank_scenes_by_action_intensity [six_second_scene, remainder_scene]
             = [six_second_scene, remainder_scene]"
    by (simp add: rank_scenes_by_action_intensity_def py_sorted_reverse_def getter_defs
        six_second_scene_def remainder_scene_def)
  have d6: "get_duration six_second_scene = 6"
    by (simp add: getter_defs six_second_scene_def)
  have dr: "get_duration remainder_scene = 1351079888211149 / 562949953421312"
    by (simp only: get_duration_def remainder_scene_def scene.simps option.case
        remainder_duration)
  have f: "filter_action_scenes [six_second_scene, remainder_scene] 0.3 0 60
             = [six_second_scene, remainder_scene]"
    using dr d6
    by (simp add: filter_action_scenes_def get_is_action_scene_def
        get_action_confidence_def six_second_scene_def remainder_scene_def)
  have first: "double_add 0 6 = 6" by (simp add: double_add_def)
  have p: "pack_loop 7 [six_second_scene, remainder_scene] ([], 0)
             = ([six_second_scene, remainder_scene], 4728779608739021 / 562949953421312)"
    by (simp only: pack_loop.simps Let_def d6 dr first six_plus_remainder bound_7) simp
  have c: "select_sequences_for_supercut [six_second_scene, remainder_scene] 7 0.3 0 60
             False None = [six_second_scene, remainder_scene]"
    using f r p by (simp add: select_sequences_for_supercut_def)
  have e: "get_duration six_second_scene + get_duration remainder_scene > 7 * 1.2"
    unfolding d6 dr by simp
  have t: "total_duration [six_second_scene, remainder_scene]
             = double_mul 7 (double_round 1.2)"
    by (simp only: total_duration_def list.map foldl_Cons foldl_Nil d6 dr first
        six_plus_remainder bound_7)
  from a b c e t show ?thesis by (simp add: total_duration_def)
qed

section \<open>The scenario\<close>

text \<open>
  Claim C4.  On the three example scenes with \<open>min_confidence = 0.5\<close>, durations between
  3 and 60, a target of 30 and diversity off: the filter drops the scene of confidence
  0.40, the ranking is fight before chase, the packer accepts the fight (total 20, below
  30) and then the chase (total 35, at most 36 and at least 30, so it stops), and the
  selection is fight, chase, of total duration 35.
\<close>

theorem scenario_fight_then_chase:
  "filter_action_scenes example_scenes 0.5 3 60 = [chase_scene, fight_scene] \<and>
   rank_scenes_by_action_intensity [chase_scene, fight_scene] = [fight_scene, chase_scene] \<and>
   pack_loop 30 [fight_scene] ([], 0) = ([fight_scene], 20) \<and>
   pack_loop 30 [fight_scene, chase_scene] ([], 0) = ([fight_scene, chase_scene], 35) \<and>
   (35::real) \<le> 30 * 1.2 \<and>
   select_sequences_for_supercut example_scenes 30 0.5 3 60 False None
     = [fight_scene, chase_scene] \<and>
   total_duration (select_sequences_for_supercut example_scenes 30 0.5 3 60 False None) = 35"
  using example_filter example_rank example_pack example_pack_first example_select
    example_total
  by simp

section \<open>Idempotence\<close>

text \<open>
  Claim C9.  Let \<open>out\<close> be a selection made with diversity off.  Selecting again from
  \<open>out\<close>, with the same target, diversity off and filter parameters that admit every
  scene of \<open>out\<close>, returns \<open>out\<close>.
\<close>

theorem selection_idempotent:
  assumes out: "out = select_sequences_for_supercut scenes t mc mind maxd False mpt"
    and loose: "\<forall>s \<in> set out. mc' \<le> get_action_confidence s \<and>
                  mind' \<le> get_duration s \<and> get_duration s \<le> maxd'"
  shows "select_sequences_for_supercut out t mc' mind' maxd' False mpt' = out"
proof (cases "out = []")
  case True
  then show ?thesis by (simp add: select_sequences_for_supercut_def filter_action_scenes_def)
next
  case False
  let ?F = "filter_action_scenes scenes mc mind maxd"
  let ?R = "rank_scenes_by_action_intensity ?F"
  from False out have packed: "out = fst (pack_loop t ?R ([], 0))"
    by (simp add: select_sequences_for_supercut_def Let_def split: if_splits)
  then have sub: "subseq out ?R" by (simp add: pack_loop_subseq)
  then have "set out \<subseteq> set ?R" by (rule subseq_set_subset)
  then have "set out \<subseteq> set ?F"
    by (simp add: rank_scenes_by_action_intensity_def py_sorted_reverse_set)
  then have "\<forall>s\<in>set out. get_is_action_scene s"
    by (auto simp: filter_action_scenes_def)
  with loose have f: "filter_action_scenes out mc' mind' maxd' = out"
    by (simp add: filter_action_scenes_def)
  from sub have r: "rank_scenes_by_action_intensity out = out"
    unfolding rank_scenes_by_action_intensity_def by (rule py_sorted_reverse_subseq_id)
  have "fst (pack_loop t out ([], 0)) = out"
    unfolding packed by (rule pack_loop_idem)
  with f r False show ?thesis by (simp add: select_sequences_for_supercut_def)
qed

theorem selection_idempotent_witness:
  "select_sequences_for_supercut
     (select_sequences_for_supercut example_scenes 30 0.5 3 60 False None)
     30 0 0 100 False None
   = select_sequences_for_supercut example_scenes 30 0.5 3 60 False None \<and>
   select_sequences_for_supercut example_scenes 30 0.5 3 60 False None
   = [fight_scene, chase_scene]"
proof -
  have h: "\<forall>s \<in> set (select_sequences_for_supercut example_scenes 30 0.5 3 60 False None).
      0 \<le> get_action_confidence s \<and> 0 \<le> get_duration s \<and> get_duration s \<le> 100"
    using example_select by (simp add: getter_defs example_defs)
  from selection_idempotent[OF refl h] example_select show ?thesis by simp
qed

section \<open>The diversity balancer\<close>

subsection \<open>The code against the specification's two phases\<close>

lemma set_discovery_order [simp]: "set (discovery_order xs) = set xs"
  by (induction xs) auto

lemma distinct_discovery_order [simp]: "distinct (discovery_order xs)"
  by (induction xs) (auto simp: distinct_removeAll)

lemma discovery_order_snoc:
  "discovery_order (xs @ [x])
     = (if x \<in> set xs then discovery_order xs else discovery_order xs @ [x])"
  by (induction xs) auto

lemma group_append_map:
  "distinct ts \<Longrightarrow>
   group_append s (map (\<lambda>t. (t, f t)) ts) =
     (if get_action_type s \<in> set ts
      then map (\<lambda>t. (t, if t = get_action_type s then f t @ [s] else f t)) ts
      else map (\<lambda>t. (t, f t)) ts @ [(get_action_type s, [s])])"
  by (induction ts) auto

lemma type_group_snoc:
  "type_group (xs @ [x]) t
     = (if t = get_action_type x then type_group xs t @ [x] else type_group xs t)"
  by (auto simp: type_group_def)

lemma type_group_absent: "t \<notin> get_action_type ` set xs \<Longrightarrow> type_group xs t = []"
  by (auto simp: type_group_def filter_empty_conv)

lemma type_group_append: "type_group (xs @ ys) t = type_group xs t @ type_group ys t"
  by (simp add: type_group_def)

lemma type_group_sorted:
  "type_group (py_sorted_reverse k xs) t = py_sorted_reverse k (type_group xs t)"
  by (simp add: type_group_def py_sorted_reverse_def filter_sort)

lemma type_group_type: "\<forall>s \<in> set (type_group scenes t). get_action_type s = t"
  by (simp add: type_group_def)

lemma group_by_type_eq:
  "group_by_type scenes =
     map (\<lambda>t. (t, type_group scenes t)) (discovery_order (map get_action_type scenes))"
proof (induction scenes rule: rev_induct)
  case Nil
  then show ?case by (simp add: group_by_type_def)
next
  case (snoc x xs)
  let ?ts = "discovery_order (map get_action_type xs)"
  have "group_by_type (xs @ [x]) = group_append x (group_by_type xs)"
    by (simp add: group_by_type_def)
  also have "\<dots> = group_append x (map (\<lambda>t. (t, type_group xs t)) ?ts)"
    by (simp add: snoc.IH)
  also have "\<dots> = map (\<lambda>t. (t, type_group (xs @ [x]) t))
                      (discovery_order (map get_action_type (xs @ [x])))"
  proof (cases "get_action_type x \<in> get_action_type ` set xs")
    case True
    then show ?thesis
      by (simp add: group_append_map discovery_order_snoc type_group_snoc)
  next
    case False
    then have "\<forall>s \<in> set xs. get_action_type s \<noteq> get_action_type x"
      by (metis imageI)
    with False show ?thesis
      by (simp add: group_append_map discovery_order_snoc type_group_snoc type_group_absent)
  qed
  finally show ?case .
qed

lemma floor_pass_eq:
  "floor_pass m g b =
     (b @ concat (map (\<lambda>(t, ss). py_take m (py_sorted_reverse get_action_confidence ss)) g),
      map (\<lambda>(t, ss). (t, py_drop m (py_sorted_reverse get_action_confidence ss))) g)"
  by (induction g arbitrary: b) (auto simp: Let_def)

lemma ceiling_pass_eq:
  "ceiling_pass M m g r =
     r @ concat (map (\<lambda>(t, ss). if M - m > 0 then py_take (M - m) ss else []) g)"
  by (induction g arbitrary: r) (auto simp: Let_def)

lemma ensure_action_diversity_eq:
  "ensure_action_diversity scenes mpt m =
     spec_phase_a scenes m @ spec_phase_b scenes (effective_max_per_type scenes mpt m) m"
  by (simp add: ensure_action_diversity_def Let_def group_by_type_eq floor_pass_eq
      ceiling_pass_eq spec_phase_a_def spec_phase_b_def comp_def)

subsection \<open>The scenes of one category in each phase\<close>

lemma type_group_concat:
  assumes "distinct ts" and "\<And>u. \<forall>s \<in> set (f u). get_action_type s = u"
  shows "type_group (concat (map f ts)) t = (if t \<in> set ts then f t else [])"
  using assms(1)
proof (induction ts)
  case Nil
  then show ?case by (simp add: type_group_def)
next
  case (Cons u ts)
  have own: "type_group (f t) t = f t"
    using assms(2)[of t] by (simp add: type_group_def)
  have other: "u \<noteq> t \<Longrightarrow> type_group (f u) t = []"
    using assms(2)[of u] by (auto simp: type_group_def filter_empty_conv)
  from Cons show ?case
    by (cases "u = t") (auto simp: type_group_append own other)
qed

lemma set_py_take: "set (py_take n xs) \<subseteq> set xs"
  by (auto simp: py_take_def dest: in_set_takeD)

lemma set_py_drop: "set (py_drop n xs) \<subseteq> set xs"
  by (auto simp: py_drop_def dest: in_set_dropD)

lemma length_py_take_ge: "min n (int (length xs)) \<le> int (length (py_take n xs))"
  by (auto simp: py_take_def)

lemma length_py_take_le: "0 \<le> n \<Longrightarrow> int (length (py_take n xs)) \<le> n"
  by (auto simp: py_take_def)

lemma length_py_take_drop:
  "0 \<le> m \<Longrightarrow> 0 \<le> k \<Longrightarrow>
     int (length (py_take m xs)) + int (length (py_take k (py_drop m xs))) \<le> m + k"
  by (auto simp: py_take_def py_drop_def)

lemma type_group_phase_a:
  "type_group (spec_phase_a scenes m) t =
     py_take m (py_sorted_reverse get_action_confidence (type_group scenes t))"
proof -
  let ?f = "\<lambda>t. py_take m (py_sorted_reverse get_action_confidence (type_group scenes t))"
  have ty: "\<And>u. \<forall>s \<in> set (?f u). get_action_type s = u"
    using set_py_take type_group_type by (fastforce simp: py_sorted_reverse_set)
  have "type_group (spec_phase_a scenes m) t =
      (if t \<in> set (discovery_order (map get_action_type scenes)) then ?f t else [])"
    unfolding spec_phase_a_def by (rule type_group_concat[OF _ ty]) simp
  moreover have "t \<notin> get_action_type ` set scenes \<Longrightarrow> ?f t = []"
    by (simp add: type_group_absent py_take_def py_sorted_reverse_def)
  ultimately show ?thesis by auto
qed

lemma type_group_phase_b:
  "type_group (spec_phase_b scenes M m) t =
     py_sorted_reverse get_action_confidence
      (if M - m > 0
       then py_take (M - m)
              (py_drop m (py_sorted_reverse get_action_confidence (type_group scenes t)))
       else [])"
proof -
  let ?f = "\<lambda>t. if M - m > 0
       then py_take (M - m)
              (py_drop m (py_sorted_reverse get_action_confidence (type_group scenes t)))
       else []"
  have ty: "\<And>u. \<forall>s \<in> set (?f u). get_action_type s = u"
  proof
    fix u s assume "s \<in> set (?f u)"
    then have "s \<in> set (py_take (M - m)
        (py_drop m (py_sorted_reverse get_action_confidence (type_group scenes u))))"
      by (auto split: if_splits)
    then have "s \<in> set (type_group scenes u)"
      using set_py_take set_py_drop by (fastforce simp: py_sorted_reverse_set)
    then show "get_action_type s = u" by (simp add: type_group_def)
  qed
  have "type_group (concat (map ?f (discovery_order (map get_action_type scenes)))) t =
      (if t \<in> set (discovery_order (map get_action_type scenes)) then ?f t else [])"
    by (rule type_group_concat[OF _ ty]) simp
  moreover have "t \<notin> get_action_type ` set scenes \<Longrightarrow> ?f t = []"
    by (simp add: type_group_absent py_take_def py_drop_def py_sorted_reverse_def)
  ultimately
  have "type_group (concat (map ?f (discovery_order (map get_action_type scenes)))) t = ?f t"
    by auto
  then show ?thesis
    unfolding spec_phase_b_def type_group_sorted by simp
qed

lemma set_ensure_action_diversity:
  "set (ensure_action_diversity scenes mpt m) \<subseteq> set scenes"
proof
  fix s assume "s \<in> set (ensure_action_diversity scenes mpt m)"
  then have "s \<in> set (type_group (ensure_action_diversity scenes mpt m) (get_action_type s))"
    by (simp add: type_group_def)
  then have "s \<in> set (py_sorted_reverse get_action_confidence
                        (type_group scenes (get_action_type s)))"
    unfolding ensure_action_diversity_eq type_group_append type_group_phase_a
      type_group_phase_b
    using set_py_take set_py_drop by (fastforce simp: py_sorted_reverse_set split: if_splits)
  then show "s \<in> set scenes" by (simp add: py_sorted_reverse_set type_group_def)
qed

subsection \<open>The floor and the order of the output\<close>

text \<open>
  Claim C7.  The balancer's output is the phase-A scenes followed by the phase-B
  surplus; phase A is made of one group per category, in the order in which the
  categories first appear in the input, each group being the first \<open>min_per_type\<close>
  scenes of the category's ranking; and for every category the output holds at least
  \<open>min min_per_type n\<close> scenes of it, \<open>n\<close> being the number of its scenes in the input.
\<close>

theorem diversity_floor_and_order:
  "ensure_action_diversity scenes mpt m =
     spec_phase_a scenes m @ spec_phase_b scenes (effective_max_per_type scenes mpt m) m \<and>
   (\<forall>t. min m (int (length (type_group scenes t)))
          \<le> int (length (type_group (ensure_action_diversity scenes mpt m) t)))"
proof -
  have "min m (int (length (type_group scenes t)))
          \<le> int (length (type_group (ensure_action_diversity scenes mpt m) t))" for t
  proof -
    have "min m (int (length (type_group scenes t)))
        = min m (int (length (py_sorted_reverse get_action_confidence (type_group scenes t))))"
      by (simp add: length_py_sorted_reverse)
    also have "\<dots> \<le> int (length (type_group (spec_phase_a scenes m) t))"
      unfolding type_group_phase_a by (rule length_py_take_ge)
    also have "\<dots> \<le> int (length (type_group (ensure_action_diversity scenes mpt m) t))"
      by (simp add: ensure_action_diversity_eq type_group_append)
    finally show ?thesis .
  qed
  then show ?thesis using ensure_action_diversity_eq by blast
qed

subsection \<open>The ceiling\<close>

lemma num_action_types_pos: "scenes \<noteq> [] \<Longrightarrow> 0 < num_action_types scenes"
  by (cases scenes) (auto simp: num_action_types_def)

lemma num_action_types_card: "num_action_types scenes = card (get_action_type ` set scenes)"
  by (simp add: num_action_types_def length_remdups_card_conv)

lemma effective_max_ge:
  assumes "scenes \<noteq> []" and "\<forall>M. mpt = Some M \<longrightarrow> m \<le> M"
  shows "m \<le> effective_max_per_type scenes mpt m"
  using assms num_action_types_pos[OF assms(1)]
  by (cases mpt) (simp_all add: effective_max_per_type_def Let_def)

lemma effective_max_derived:
  "effective_max_per_type scenes None m =
     (if num_action_types scenes = 0 then int (length scenes)
      else max \<lfloor>double_mul (double_div (real (length scenes))
                                       (real (num_action_types scenes))) 1.5\<rfloor>
               (m + 1))"
proof -
  have "0 \<le> double_div (real (length scenes)) (real (num_action_types scenes))"
    unfolding double_div_def by (intro double_round_nonneg) simp
  then have "0 \<le> double_mul (double_div (real (length scenes))
                                   (real (num_action_types scenes))) 1.5"
    unfolding double_mul_def by (intro double_round_nonneg mult_nonneg_nonneg) simp_all
  then show ?thesis by (simp add: effective_max_per_type_def Let_def py_int_def)
qed

lemma phases_ceiling:
  assumes "0 \<le> m" and "m \<le> M"
  shows "int (length (type_group (spec_phase_a scenes m @ spec_phase_b scenes M m) t)) \<le> M"
proof -
  let ?G = "py_sorted_reverse get_action_confidence (type_group scenes t)"
  have len: "int (length (type_group (spec_phase_a scenes m @ spec_phase_b scenes M m) t))
     = int (length (py_take m ?G))
       + int (length (if M - m > 0 then py_take (M - m) (py_drop m ?G) else []))"
    by (simp add: type_group_append type_group_phase_a type_group_phase_b
        length_py_sorted_reverse)
  show ?thesis
  proof (cases "M - m > 0")
    case True
    with assms length_py_take_drop[of m "M - m" ?G] len show ?thesis by simp
  next
    case False
    with assms length_py_take_le[of m ?G] len show ?thesis by simp
  qed
qed

lemma diversity_ceiling_count:
  assumes "0 \<le> m" and "\<forall>M. mpt = Some M \<longrightarrow> m \<le> M"
  shows "int (length (type_group (ensure_action_diversity scenes mpt m) t))
           \<le> effective_max_per_type scenes mpt m"
proof (cases "scenes = []")
  case True
  then have "ensure_action_diversity scenes mpt m = []"
    by (simp add: ensure_action_diversity_eq spec_phase_a_def spec_phase_b_def
        py_sorted_reverse_def)
  moreover have "0 \<le> effective_max_per_type scenes mpt m"
    using assms True
    by (cases mpt) (simp_all add: effective_max_per_type_def num_action_types_def)
  ultimately show ?thesis by (simp add: type_group_def)
next
  case False
  from effective_max_ge[OF False assms(2)] assms(1) show ?thesis
    unfolding ensure_action_diversity_eq by (rule phases_ceiling[rotated])
qed

lemma effective_max_exact:
  assumes "length scenes \<le> 2 ^ 50"
  shows "effective_max_per_type scenes None m =
     (if num_action_types scenes = 0 then int (length scenes)
      else max \<lfloor>real (length scenes) / real (num_action_types scenes) * 1.5\<rfloor> (m + 1))"
proof (cases "num_action_types scenes = 0")
  case True
  then show ?thesis by (simp add: effective_max_derived)
next
  case False
  then have "0 < num_action_types scenes" by simp
  from ceiling_exact[OF this assms] False show ?thesis
    by (simp only: effective_max_derived if_False)
qed

text \<open>
  Claim C8.  Without a caller's \<open>max_per_type\<close> the ceiling is the total scene count
  when there is no category, and otherwise the larger of \<open>\<lfloor>(total / categories) * 1.5\<rfloor>\<close>,
  as Python computes the quotient and the product, and \<open>min_per_type + 1\<close>; for at most
  \<open>2^50\<close> scenes that floor is the floor of the exact quotient times 1.5.  The categories
  are counted as the distinct action types.  For \<open>min_per_type\<close> a count, that is not
  negative, and a caller's \<open>max_per_type\<close> at least \<open>min_per_type\<close>, no category has more
  scenes in the output than the ceiling in force.
\<close>

theorem diversity_ceiling:
  "effective_max_per_type scenes None m =
     (if num_action_types scenes = 0 then int (length scenes)
      else max \<lfloor>double_mul (double_div (real (length scenes))
                                       (real (num_action_types scenes))) 1.5\<rfloor>
               (m + 1)) \<and>
   (length scenes \<le> 2 ^ 50 \<longrightarrow>
      effective_max_per_type scenes None m =
        (if num_action_types scenes = 0 then int (length scenes)
         else max \<lfloor>real (length scenes) / real (num_action_types scenes) * 1.5\<rfloor>
                  (m + 1))) \<and>
   num_action_types scenes = card (get_action_type ` set scenes) \<and>
   (0 \<le> m \<and> (\<forall>M. mpt = Some M \<longrightarrow> m \<le> M) \<longrightarrow>
      (\<forall>t. int (length (type_group (ensure_action_diversity scenes mpt m) t))
            \<le> effective_max_per_type scenes mpt m))"
  using effective_max_derived effective_max_exact num_action_types_card
    diversity_ceiling_count by blast

theorem diversity_ceiling_witness:
  "effective_max_per_type ranked_scenes None 1 = 2 \<and>
   length ranked_scenes \<le> 2 ^ 50 \<and>
   effective_max_per_type ranked_scenes None 1
     = max \<lfloor>real (length ranked_scenes) / real (num_action_types ranked_scenes) * 1.5\<rfloor> 2 \<and>
   num_action_types ranked_scenes = 2 \<and>
   int (length (type_group (ensure_action_diversity ranked_scenes None 1) ''chase'')) \<le> 2 \<and>
   (0::int) \<le> 1 \<and> (1::int) \<le> 2 \<and>
   int (length (type_group (ensure_action_diversity ranked_scenes (Some 2) 1) ''chase'')) \<le> 2"
proof -
  have n: "num_action_types ranked_scenes = 2"
    by (simp add: ranked_scenes_def num_action_types_def getter_defs example_defs)
  have l: "length ranked_scenes \<le> 2 ^ 50" by (simp add: ranked_scenes_def)
  have s: "effective_max_per_type ranked_scenes (Some 2) 1 = 2"
    by (simp add: effective_max_per_type_def)
  from diversity_ceiling[of ranked_scenes 1 None, THEN conjunct2, THEN conjunct1,
      rule_format, OF l] n
  have x: "effective_max_per_type ranked_scenes None 1
     = max \<lfloor>real (length ranked_scenes) / real (num_action_types ranked_scenes) * 1.5\<rfloor> 2"
    by simp
  have "int (length (type_group (ensure_action_diversity ranked_scenes None 1) ''chase''))
          \<le> effective_max_per_type ranked_scenes None 1"
    by (rule diversity_ceiling[of ranked_scenes 1 None, THEN conjunct2, THEN conjunct2,
          THEN conjunct2, rule_format]) simp
  moreover
  have "int (length (type_group (ensure_action_diversity ranked_scenes (Some 2) 1) ''chase''))
          \<le> effective_max_per_type ranked_scenes (Some 2) 1"
    by (rule diversity_ceiling[of ranked_scenes 1 "Some 2", THEN conjunct2, THEN conjunct2,
          THEN conjunct2, rule_format]) simp
  ultimately show ?thesis using example_effective_max n s l x by simp
qed

section \<open>Absent fields\<close>

lemma getters_with_defaults [simp]:
  "get_is_action_scene (with_defaults s) = get_is_action_scene s"
  "get_action_confidence (with_defaults s) = get_action_confidence s"
  "get_duration (with_defaults s) = get_duration s"
  "get_action_type (with_defaults s) = get_action_type s"
  by (simp_all add: with_defaults_def getter_defs)

lemma insort_key_map:
  "insort_key f (g x) (map g xs) = map g (insort_key (\<lambda>y. f (g y)) x xs)"
  by (induction xs) simp_all

lemma sort_key_map: "sort_key f (map g xs) = map g (sort_key (\<lambda>y. f (g y)) xs)"
  by (induction xs) (simp_all add: insort_key_map)

lemma py_sorted_reverse_with_defaults:
  "py_sorted_reverse get_action_confidence (map with_defaults xs)
     = map with_defaults (py_sorted_reverse get_action_confidence xs)"
  by (simp add: py_sorted_reverse_def sort_key_map)

lemma filter_with_defaults:
  "filter_action_scenes (map with_defaults scenes) mc mind maxd
     = map with_defaults (filter_action_scenes scenes mc mind maxd)"
  by (simp add: filter_action_scenes_def filter_map comp_def)

lemma rank_with_defaults:
  "rank_scenes_by_action_intensity (map with_defaults scenes)
     = map with_defaults (rank_scenes_by_action_intensity scenes)"
  by (simp add: rank_scenes_by_action_intensity_def py_sorted_reverse_with_defaults)

lemma pack_loop_with_defaults:
  "pack_loop t (map with_defaults xs) (map with_defaults sel, cur)
     = (map with_defaults (fst (pack_loop t xs (sel, cur))), snd (pack_loop t xs (sel, cur)))"
proof (induction xs arbitrary: sel cur)
  case Nil
  then show ?case by simp
next
  case (Cons x xs)
  have step: "pack_loop t (map with_defaults xs) (map with_defaults sel @ [with_defaults x], c)
     = (map with_defaults (fst (pack_loop t xs (sel @ [x], c))),
        snd (pack_loop t xs (sel @ [x], c)))" for c
    using Cons.IH[of "sel @ [x]" c] by simp
  show ?case
    by (cases rule: pack_loop_Cons_cases[where cur=cur and x=x and t=t and xs=xs and sel=sel])
       (simp_all add: Let_def Cons.IH step)
qed

lemma py_take_map: "py_take n (map f xs) = map f (py_take n xs)"
  by (simp add: py_take_def take_map)

lemma py_drop_map: "py_drop n (map f xs) = map f (py_drop n xs)"
  by (simp add: py_drop_def drop_map)

lemma type_group_with_defaults:
  "type_group (map with_defaults xs) t = map with_defaults (type_group xs t)"
  by (simp add: type_group_def filter_map comp_def)

lemma spec_phase_a_with_defaults:
  "spec_phase_a (map with_defaults scenes) m = map with_defaults (spec_phase_a scenes m)"
  by (simp add: spec_phase_a_def comp_def type_group_with_defaults
      py_sorted_reverse_with_defaults py_take_map map_concat)

lemma spec_phase_b_with_defaults:
  "spec_phase_b (map with_defaults scenes) M m = map with_defaults (spec_phase_b scenes M m)"
proof -
  let ?Y = "\<lambda>t. if M - m > 0
       then py_take (M - m)
              (py_drop m (py_sorted_reverse get_action_confidence (type_group scenes t)))
       else []"
  have "(\<lambda>t. if M - m > 0
       then py_take (M - m) (py_drop m (py_sorted_reverse get_action_confidence
              (type_group (map with_defaults scenes) t)))
       else []) = (\<lambda>t. map with_defaults (?Y t))"
    by (auto simp: type_group_with_defaults py_sorted_reverse_with_defaults py_take_map
        py_drop_map)
  then have "spec_phase_b (map with_defaults scenes) M m =
     py_sorted_reverse get_action_confidence
       (concat (map (\<lambda>t. map with_defaults (?Y t))
                    (discovery_order (map get_action_type scenes))))"
    by (simp add: spec_phase_b_def comp_def)
  also have "\<dots> = py_sorted_reverse get_action_confidence
       (map with_defaults (concat (map ?Y (discovery_order (map get_action_type scenes)))))"
    by (simp add: map_concat comp_def)
  also have "\<dots> = map with_defaults (spec_phase_b scenes M m)"
    unfolding py_sorted_reverse_with_defaults spec_phase_b_def ..
  finally show ?thesis .
qed

lemma diversity_with_defaults:
  "ensure_action_diversity (map with_defaults scenes) mpt m
     = map with_defaults (ensure_action_diversity scenes mpt m)"
proof -
  have n: "num_action_types (map with_defaults scenes) = num_action_types scenes"
    by (simp add: num_action_types_def comp_def)
  have e: "effective_max_per_type (map with_defaults scenes) mpt m
             = effective_max_per_type scenes mpt m"
    by (cases mpt) (simp_all add: effective_max_per_type_def n)
  show ?thesis
    unfolding ensure_action_diversity_eq e
    by (simp add: spec_phase_a_with_defaults spec_phase_b_with_defaults)
qed

lemma select_with_defaults:
  "select_sequences_for_supercut (map with_defaults scenes) t mc mind maxd dv mpt
     = map with_defaults (select_sequences_for_supercut scenes t mc mind maxd dv mpt)"
  using pack_loop_with_defaults[of t _ "[]" 0]
  by (simp add: select_sequences_for_supercut_def Let_def filter_with_defaults
      rank_with_defaults diversity_with_defaults)

lemma unflagged_filtered_out:
  "is_action_scene s = None \<Longrightarrow> s \<notin> set (filter_action_scenes scenes mc mind maxd)"
  by (simp add: filter_action_scenes_def get_is_action_scene_def)

text \<open>
  Claim C10, as the code has it.  Every stage reads the action flag, the confidence and
  the duration through \<^verbatim>\<open>get\<close> with a default, so no stage fails on an absent field,
  and filling the defaults in beforehand changes nothing: the filter, the ranker, the
  packer and the whole selection commute with \<open>with_defaults\<close>.  A scene without its
  action flag is never kept by the filter.  A scene without a duration that the walk
  comes to, under a target that is not negative and before the total has reached the
  target, is accepted and leaves the total as it was.  When the walk has stopped at an
  accepted scene, the total being at the target or above it, nothing that follows is
  looked at or selected.  Under a negative target a scene without a duration that the
  walk comes to with a total of zero is skipped.
\<close>

theorem absent_fields_defaults:
  "select_sequences_for_supercut (map with_defaults scenes) t mc mind maxd dv mpt
     = map with_defaults (select_sequences_for_supercut scenes t mc mind maxd dv mpt) \<and>
   filter_action_scenes (map with_defaults scenes) mc mind maxd
     = map with_defaults (filter_action_scenes scenes mc mind maxd) \<and>
   rank_scenes_by_action_intensity (map with_defaults scenes)
     = map with_defaults (rank_scenes_by_action_intensity scenes) \<and>
   pack_loop t (map with_defaults scenes) ([], 0)
     = (map with_defaults (fst (pack_loop t scenes ([], 0))),
        snd (pack_loop t scenes ([], 0))) \<and>
   (is_action_scene s = None \<longrightarrow> s \<notin> set (filter_action_scenes scenes mc mind maxd)) \<and>
   (duration s = None \<and> 0 \<le> t \<and> snd (pack_loop t scenes ([], 0)) < t \<longrightarrow>
      pack_loop t (scenes @ s # rest) ([], 0)
        = pack_loop t rest (fst (pack_loop t scenes ([], 0)) @ [s],
                            snd (pack_loop t scenes ([], 0)))) \<and>
   (fst (pack_loop t scenes ([], 0)) \<noteq> [] \<and> t \<le> snd (pack_loop t scenes ([], 0)) \<longrightarrow>
      pack_loop t (scenes @ rest) ([], 0) = pack_loop t scenes ([], 0)) \<and>
   (duration s = None \<and> t < 0 \<longrightarrow>
      pack_loop t (s # rest) (sel, 0) = pack_loop t rest (sel, 0))"
proof -
  obtain sl c where p: "pack_loop t scenes ([], 0) = (sl, c)" by fastforce
  have stopped: "sl \<noteq> [] \<and> t \<le> c \<longrightarrow> pack_loop t (scenes @ rest) ([], 0) = (sl, c)"
    using pack_loop_stopped[OF p, of rest] by simp
  show ?thesis
    using select_with_defaults filter_with_defaults rank_with_defaults
      pack_loop_with_defaults[of t scenes "[]" 0] unflagged_filtered_out
      pack_untimed[of s t scenes rest] pack_untimed_skipped[of s t rest sel] stopped p
    by simp
qed

theorem absent_fields_defaults_witness:
  "is_action_scene bare_scene = None \<and>
   bare_scene \<notin> set (filter_action_scenes [fight_scene] 0 0 60) \<and>
   duration untimed_scene = None \<and>
   snd (pack_loop 30 [fight_scene] ([], 0)) < 30 \<and>
   pack_loop 30 ([fight_scene] @ untimed_scene # [chase_scene]) ([], 0)
     = pack_loop 30 [chase_scene] ([fight_scene, untimed_scene], 20) \<and>
   pack_loop 30 (map with_defaults [fight_scene]) ([], 0)
     = (map with_defaults [fight_scene], 20) \<and>
   fst (pack_loop 30 [fight_scene, chase_scene] ([], 0)) \<noteq> [] \<and>
   30 \<le> snd (pack_loop 30 [fight_scene, chase_scene] ([], 0)) \<and>
   pack_loop 30 ([fight_scene, chase_scene] @ [untimed_scene]) ([], 0)
     = ([fight_scene, chase_scene], 35) \<and>
   pack_loop (- 1) [untimed_scene, fight_scene] ([], 0)
     = pack_loop (- 1) [fight_scene] ([], 0)"
proof -
  note a = absent_fields_defaults[of "[fight_scene]" 30 0 0 60 False None bare_scene
      "[]" "[]"]
  note b = absent_fields_defaults[of "[fight_scene]" 30 0 0 60 False None untimed_scene
      "[chase_scene]" "[]"]
  note c = absent_fields_defaults[of "[fight_scene, chase_scene]" 30 0 0 60 False None
      untimed_scene "[untimed_scene]" "[]"]
  note d = absent_fields_defaults[of "[]" "- 1" 0 0 60 False None untimed_scene
      "[fight_scene]" "[]"]
  have f: "is_action_scene bare_scene = None" by (simp add: bare_scene_def)
  have u: "duration untimed_scene = None" by (simp add: untimed_scene_def)
  from a f have 1: "bare_scene \<notin> set (filter_action_scenes [fight_scene] 0 0 60)"
    by blast
  from b u example_pack_first
  have 2: "pack_loop 30 ([fight_scene] @ untimed_scene # [chase_scene]) ([], 0)
     = pack_loop 30 [chase_scene] ([fight_scene, untimed_scene], 20)"
    by (simp del: pack_loop.simps)
  from b example_pack_first
  have 3: "pack_loop 30 (map with_defaults [fight_scene]) ([], 0)
     = (map with_defaults [fight_scene], 20)"
    by (simp del: pack_loop.simps)
  from c example_pack
  have 4: "pack_loop 30 ([fight_scene, chase_scene] @ [untimed_scene]) ([], 0)
     = ([fight_scene, chase_scene], 35)"
    by (simp del: pack_loop.simps)
  from d u
  have 5: "pack_loop (- 1) [untimed_scene, fight_scene] ([], 0)
     = pack_loop (- 1) [fight_scene] ([], 0)"
    by (simp del: pack_loop.simps)
  from f u 1 2 3 4 5 example_pack example_pack_first show ?thesis
    by (simp del: pack_loop.simps)
qed

text \<open>Claim C10 as stated fails where it has such a scene always accepted.  The
  untimed scene passes the filter and is ranked third, but the walk stops at the chase,
  which brings the total to 35, and never comes to it; and under a target of \<open>-1\<close> the
  walk comes to it and skips it, as \<open>0 + 0\<close> is above the negative bound.\<close>

theorem untimed_scene_left_out:
  "rank_scenes_by_action_intensity
     (filter_action_scenes [chase_scene, fight_scene, untimed_scene] 0.3 0 60)
     = [fight_scene, chase_scene, untimed_scene] \<and>
   select_sequences_for_supercut [chase_scene, fight_scene, untimed_scene] 30 0.3 0 60
     False None = [fight_scene, chase_scene] \<and>
   select_sequences_for_supercut [untimed_scene] (- 1) 0.3 0 60 False None = []"
  using bound_30 bound_minus_1
  by (simp add: eval_defs example_defs double_round_minus)

section \<open>Configurations that admit nothing\<close>

text \<open>
  Claim C3, as the code has it.  \<^verbatim>\<open>select_sequences_for_supercut\<close> checks no
  parameter and has no \<^verbatim>\<open>raise\<close>: under every configuration it runs the filter and
  returns a list.  When \<open>min_duration > max_duration\<close> the filter admits no scene, and
  when the target is at most zero and \<open>min_duration\<close> is positive the packer accepts no
  scene: in both cases the result is the empty selection, whatever the scenes.
\<close>

theorem degenerate_configuration_selects_nothing:
  assumes "maxd < mind \<or> (t \<le> 0 \<and> 0 < mind)"
  shows "select_sequences_for_supercut scenes t mc mind maxd dv mpt = []"
  using assms
proof
  assume "maxd < mind"
  then have "filter_action_scenes scenes mc mind maxd = []"
    by (auto simp: filter_action_scenes_def filter_empty_conv)
  then show ?thesis by (simp add: select_sequences_for_supercut_def)
next
  assume a: "t \<le> 0 \<and> 0 < mind"
  let ?F = "filter_action_scenes scenes mc mind maxd"
  let ?R = "rank_scenes_by_action_intensity ?F"
  let ?S = "if dv then ensure_action_diversity ?R mpt 1 else ?R"
  have "set ?S \<subseteq> set ?R" using set_ensure_action_diversity by simp
  also have "\<dots> = set ?F"
    by (simp add: rank_scenes_by_action_intensity_def py_sorted_reverse_set)
  finally have "\<forall>x \<in> set ?S. 0 < get_duration x"
    using a by (auto simp: filter_action_scenes_def)
  with a have "pack_loop t ?S ([], 0) = ([], 0)" by (simp add: pack_loop_nothing_fits)
  then show ?thesis by (simp add: select_sequences_for_supercut_def Let_def)
qed

theorem degenerate_configuration_witness:
  "(3::real) < 60 \<and>
   select_sequences_for_supercut example_scenes 30 0.5 60 3 False None = [] \<and>
   (0::real) \<le> 0 \<and> (0::real) < 3 \<and>
   select_sequences_for_supercut example_scenes 0 0.5 3 60 True None = []"
  using degenerate_configuration_selects_nothing[of 3 60 30 example_scenes "0.5" False None]
    degenerate_configuration_selects_nothing[of 60 3 0 example_scenes "0.5" True None]
  by simp

text \<open>Claim C3 as stated fails: under a target of zero the stages run and the untimed
  scene is selected, and under \<open>min_duration = 60 > max_duration = 3\<close> the result is the
  value of an ordinary run that found nothing, the empty list.\<close>

theorem configuration_not_rejected:
  "select_sequences_for_supercut [untimed_scene] 0 0.3 0 60 False None = [untimed_scene] \<and>
   filter_action_scenes [untimed_scene] 0.3 0 60 = [untimed_scene] \<and>
   select_sequences_for_supercut example_scenes 30 0.5 60 3 False None = []"
  by (simp add: eval_defs example_defs example_scenes_def)

section \<open>Segment resolution\<close>

subsection \<open>The first window of highest confidence\<close>

lemma foldl_max_key_first:
  fixes k :: "'a \<Rightarrow> real"
  shows "\<exists>pre post. x # xs = pre @ foldl (\<lambda>b y. if k b < k y then y else b) x xs # post \<and>
           (\<forall>y \<in> set pre. k y < k (foldl (\<lambda>b y. if k b < k y then y else b) x xs)) \<and>
           (\<forall>y \<in> set post. k y \<le> k (foldl (\<lambda>b y. if k b < k y then y else b) x xs))"
proof (induction xs arbitrary: x)
  case Nil
  show ?case by (rule exI[of _ "[]"], rule exI[of _ "[]"]) simp
next
  case (Cons a xs)
  let ?F = "\<lambda>b. foldl (\<lambda>b y. if k b < k y then y else b) b xs"
  show ?case
  proof (cases "k x < k a")
    case True
    from Cons[of a] obtain pre post where d: "a # xs = pre @ ?F a # post"
      and lt: "\<forall>y \<in> set pre. k y < k (?F a)" and le: "\<forall>y \<in> set post. k y \<le> k (?F a)"
      by blast
    have "a \<in> set (pre @ ?F a # post)" unfolding d[symmetric] by simp
    with lt le have "k a \<le> k (?F a)" by auto
    with True have "k x < k (?F a)" by simp
    with d[symmetric] lt le True show ?thesis
      by (rule_tac x="x # pre" in exI, rule_tac x=post in exI) simp
  next
    case False
    from Cons[of x] obtain pre post where d: "x # xs = pre @ ?F x # post"
      and lt: "\<forall>y \<in> set pre. k y < k (?F x)" and le: "\<forall>y \<in> set post. k y \<le> k (?F x)"
      by blast
    show ?thesis
    proof (cases pre)
      case Nil
      from d have eq: "x # xs = ?F x # post" unfolding Nil append_Nil .
      from eq have fx: "?F x = x"
        by (rule list.inject[THEN iffD1, THEN conjunct1, symmetric])
      from eq have px: "post = xs"
        by (rule list.inject[THEN iffD1, THEN conjunct2, symmetric])
      from False have "foldl (\<lambda>b y. if k b < k y then y else b) x (a # xs) = ?F x"
        by simp
      then have best: "foldl (\<lambda>b y. if k b < k y then y else b) x (a # xs) = x"
        by (rule trans) (rule fx)
      from le have "\<forall>y \<in> set xs. k y \<le> k x" unfolding px fx .
      with False have all: "\<forall>y \<in> set (a # xs). k y \<le> k x" by simp
      have "x # a # xs = [] @ x # (a # xs) \<and> (\<forall>y \<in> set []. k y < k x) \<and>
          (\<forall>y \<in> set (a # xs). k y \<le> k x)"
        using all by simp
      then show ?thesis
        unfolding best by (rule_tac x="[]" in exI, rule_tac x="a # xs" in exI)
    next
      case (Cons p pre')
      from d have eq: "x # xs = p # (pre' @ ?F x # post)" unfolding Cons append_Cons .
      from eq have px: "p = x"
        by (rule list.inject[THEN iffD1, THEN conjunct1, symmetric])
      from eq have d': "xs = pre' @ ?F x # post"
        by (rule list.inject[THEN iffD1, THEN conjunct2])
      from lt Cons px have "k x < k (?F x)" by simp
      with False have "k a < k (?F x)" by simp
      with d'[symmetric] lt le Cons px False show ?thesis
        by (rule_tac x="x # a # pre'" in exI, rule_tac x=post in exI) simp
    qed
  qed
qed

lemma py_max_key_first:
  fixes k :: "'a \<Rightarrow> real"
  assumes "xs \<noteq> []"
  obtains pre best post where "py_max_key k xs = Inr best" "xs = pre @ best # post"
    "\<forall>y \<in> set pre. k y < k best" "\<forall>y \<in> set post. k y \<le> k best"
proof -
  from assms obtain x rest where xs: "xs = x # rest" by (cases xs) auto
  let ?b = "foldl (\<lambda>b y. if k b < k y then y else b) x rest"
  have "py_max_key k xs = Inr ?b" by (simp add: xs)
  moreover from foldl_max_key_first[of x rest k] obtain pre post where
    "xs = pre @ ?b # post" "\<forall>y \<in> set pre. k y < k ?b" "\<forall>y \<in> set post. k y \<le> k ?b"
    unfolding xs by blast
  ultimately show ?thesis using that by blast
qed

subsection \<open>The window loop ends\<close>

lemma segments_loop_returns:
  assumes e: "\<bar>e\<bar> \<le> 2 ^ 51"
  shows "\<bar>c\<bar> \<le> 2 ^ 51 \<Longrightarrow>
    \<exists>r. segments_loop c e segs = Some r \<and> length segs \<le> length r \<and>
        (c < double_sub e 1 \<longrightarrow> length segs < length r)"
proof (induction "nat \<lceil>e - c\<rceil>" arbitrary: c segs rule: less_induct)
  case less
  show ?case
  proof (cases "c < double_sub e 1")
    case False
    then have "segments_loop c e segs = Some segs"
      by (subst segments_loop.simps) simp
    with False show ?thesis by simp
  next
    case True
    let ?c' = "min (double_add c 5) e"
    from e have "\<bar>e - 1\<bar> < 2 ^ 53" by simp
    from double_round_error[OF this] have "double_sub e 1 \<le> e - 1/2"
      unfolding double_sub_def by linarith
    with True have ce: "c < e - 1/2" by simp
    from less.prems have "\<bar>c + 5\<bar> < 2 ^ 53" by simp
    from double_round_error[OF this] have step: "c + 9/2 \<le> double_add c 5"
      unfolding double_add_def by linarith
    with ce have gt: "c < ?c'" and le: "?c' \<le> e" by simp_all
    with less.prems e have bound: "\<bar>?c'\<bar> \<le> 2 ^ 51" by linarith
    have "\<lceil>e - ?c'\<rceil> < \<lceil>e - c\<rceil>" and "0 < \<lceil>e - c\<rceil>"
      using step ce by (simp_all add: min_def) linarith+
    then have "nat \<lceil>e - ?c'\<rceil> < nat \<lceil>e - c\<rceil>" by simp
    from less.hyps[OF this bound, of "segs @ [(c, ?c')]"]
    obtain r where "segments_loop ?c' e (segs @ [(c, ?c')]) = Some r"
      and "length (segs @ [(c, ?c')]) \<le> length r"
      by blast
    moreover from True
    have "segments_loop c e segs = segments_loop ?c' e (segs @ [(c, ?c')])"
      by (subst segments_loop.simps) (simp add: Let_def)
    ultimately show ?thesis by simp
  qed
qed

subsection \<open>The selection returns scenes of its input\<close>

lemma select_subset:
  "set (select_sequences_for_supercut scenes t mc mind maxd dv mpt) \<subseteq> set scenes"
proof (cases "filter_action_scenes scenes mc mind maxd = []")
  case True
  then show ?thesis by (simp add: select_sequences_for_supercut_def)
next
  case False
  let ?F = "filter_action_scenes scenes mc mind maxd"
  let ?R = "rank_scenes_by_action_intensity ?F"
  let ?S = "if dv then ensure_action_diversity ?R mpt 1 else ?R"
  from False have "select_sequences_for_supercut scenes t mc mind maxd dv mpt
      = fst (pack_loop t ?S ([], 0))"
    by (simp add: select_sequences_for_supercut_def Let_def)
  then have "set (select_sequences_for_supercut scenes t mc mind maxd dv mpt) \<subseteq> set ?S"
    using subseq_set_subset[OF pack_loop_subseq[of t ?S]] by simp
  also have "\<dots> \<subseteq> set ?R" using set_ensure_action_diversity by simp
  also have "\<dots> = set ?F"
    by (simp add: rank_scenes_by_action_intensity_def py_sorted_reverse_set)
  also have "\<dots> \<subseteq> set scenes" by (auto simp: filter_action_scenes_def)
  finally show ?thesis .
qed

subsection \<open>\<^verbatim>\<open>analyze_scene\<close> on a long scene\<close>

lemma example_segments: "segments_loop 10 25 [] = Some [(10, 15), (15, 20), (20, 25)]"
  by (simp add: segments_loop.simps[of 10] segments_loop.simps[of 15]
      segments_loop.simps[of 20] segments_loop.simps[of 25] Let_def double_add_def
      double_sub_def)

lemma example_analyze:
  "analyze_scene example_classifier chase_scene = Some (Inr analyzed_chase_scene)"
  by (simp add: analyze_scene_def Let_def example_segments chase_scene_def
      analyzed_chase_scene_def example_classifier_def)

text \<open>A scene from 0.05 to 11.05 seconds is cut into two windows: after the second
  one \<^verbatim>\<open>current_time\<close> is the double \<^verbatim>\<open>end_time - 1.0\<close> itself.\<close>

lemma example_segments_rounded:
  "segments_loop (double_round 0.05) (double_round 11.05) []
     = Some [(3602879701896397 / 72057594037927936, 5685794529555251 / 1125899906842624),
             (5685794529555251 / 1125899906842624, 2828823515942093 / 281474976710656)]"
  unfolding double_0_05 double_11_05
  apply (subst segments_loop.simps)
  apply (simp only: end_minus_1 first_window_end Let_def)
  apply simp
  apply (subst segments_loop.simps)
  apply (simp only: end_minus_1 second_window_end Let_def)
  apply simp
  apply (subst segments_loop.simps)
  apply (simp only: end_minus_1 Let_def)
  apply simp
  done

text \<open>The window loop does not end when \<^verbatim>\<open>current_time + 5.0\<close> is \<^verbatim>\<open>current_time\<close>
  again, as from \<open>10^17\<close> seconds on; \<^verbatim>\<open>analyze_scene\<close> then does not return.\<close>

lemma segments_loop_stuck:
  assumes "double_add c 5 = c" and "c < double_sub e 1" and "c \<le> e"
  shows "segments_loop c e segs = None"
proof -
  have "\<not> (c' = c \<and> e' = e)" if "segments_loop c' e' segs' = Some r" for c' e' segs' r
  proof (rule segments_loop.raw_induct[where P="\<lambda>c' e' segs' r. \<not> (c' = c \<and> e' = e)",
        OF _ that])
    fix f c' e' segs' r
    assume ih: "\<And>c'' e'' s y. f c'' e'' s = Some y \<Longrightarrow> \<not> (c'' = c \<and> e'' = e)"
      and body: "(if c' < double_sub e' 1
          then let segment_end = min (double_add c' 5) e'
               in f segment_end e' (segs' @ [(c', segment_end)])
          else Some segs') = Some r"
    show "\<not> (c' = c \<and> e' = e)"
    proof
      assume "c' = c \<and> e' = e"
      with body assms have "f c e (segs' @ [(c, c)]) = Some r"
        by (simp add: Let_def min_def)
      with ih show False by blast
    qed
  qed
  then show ?thesis by (cases "segments_loop c e segs") auto
qed

lemma example_segments_diverge:
  "segments_loop 100000000000000000 200000000000000000 segs = None"
proof (rule segments_loop_stuck)
  show "double_add 100000000000000000 5 = 100000000000000000"
    by (simp add: double_add_def double_round_def double_round_pos_down[where k=4]
        round_half_even_def)
  show "100000000000000000 < double_sub 200000000000000000 1"
    by (simp add: double_sub_def double_round_def double_round_pos_down[where k=5]
        round_half_even_def)
qed simp

lemma example_analyze_diverges: "analyze_scene clf stalled_scene = None"
  by (simp add: analyze_scene_def stalled_scene_def example_segments_diverge)

text \<open>
  Claim C2, as the code has it.  Take a scene with its three time keys, a duration
  above 10, a start below \<^verbatim>\<open>end_time - 1.0\<close> (at least one window) and start and end of
  at most \<open>2^51\<close> seconds in magnitude.  Then the window loop ends and \<^verbatim>\<open>analyze_scene\<close>
  returns; the scene's action type, confidence and action flag are those of the first
  window of highest confidence; its start, end and duration are unchanged; and the
  classifications of all its windows are stored in it under \<^verbatim>\<open>segment_results\<close>, a list
  that is not empty.  The selection returns scenes of its input as they are, so a
  selected scene still carries its \<^verbatim>\<open>segment_results\<close>.
\<close>

theorem analyze_scene_long:
  assumes "start_time s = Some st" and "end_time s = Some et" and "duration s = Some d"
    and "d > 10" and "st < double_sub et 1"
    and "\<bar>st\<bar> \<le> 2 ^ 51" and "\<bar>et\<bar> \<le> 2 ^ 51"
  shows "(\<exists>segs r pre best post.
      segments_loop st et [] = Some segs \<and> segs \<noteq> [] \<and>
      analyze_scene clf s = Some (Inr r) \<and>
      map (\<lambda>(a, b). clf a b) segs = pre @ best # post \<and>
      (\<forall>x \<in> set pre. res_confidence x < res_confidence best) \<and>
      (\<forall>x \<in> set post. res_confidence x \<le> res_confidence best) \<and>
      action_type r = Some (res_action_type best) \<and>
      action_confidence r = Some (res_confidence best) \<and>
      is_action_scene r = Some (res_is_action best) \<and>
      start_time r = Some st \<and> end_time r = Some et \<and> duration r = Some d \<and>
      segment_results r = Some (map (\<lambda>(a, b). clf a b) segs)) \<and>
    set (select_sequences_for_supercut scenes t mc mind maxd dv mpt) \<subseteq> set scenes"
proof -
  from segments_loop_returns[OF assms(7) assms(6), of "[]"] assms(5)
  obtain segs where segs: "segments_loop st et [] = Some segs" and ne: "segs \<noteq> []"
    by auto
  let ?res = "map (\<lambda>(a, b). clf a b) segs"
  from ne have "?res \<noteq> []" by simp
  then obtain pre best post where b: "py_max_key res_confidence ?res = Inr best"
      "?res = pre @ best # post"
      "\<forall>y \<in> set pre. res_confidence y < res_confidence best"
      "\<forall>y \<in> set post. res_confidence y \<le> res_confidence best"
    by (rule py_max_key_first)
  let ?r = "s\<lparr>action_type := Some (res_action_type best),
              action_confidence := Some (res_confidence best),
              is_action_scene := Some (res_is_action best),
              segment_results := Some ?res\<rparr>"
  have "analyze_scene clf s = Some (Inr ?r)"
    using assms(1-4) segs b(1) by (simp add: analyze_scene_def Let_def)
  with segs ne b(2-4) assms(1-3)
  have "\<exists>segs r pre best post.
      segments_loop st et [] = Some segs \<and> segs \<noteq> [] \<and>
      analyze_scene clf s = Some (Inr r) \<and>
      map (\<lambda>(a, b). clf a b) segs = pre @ best # post \<and>
      (\<forall>x \<in> set pre. res_confidence x < res_confidence best) \<and>
      (\<forall>x \<in> set post. res_confidence x \<le> res_confidence best) \<and>
      action_type r = Some (res_action_type best) \<and>
      action_confidence r = Some (res_confidence best) \<and>
      is_action_scene r = Some (res_is_action best) \<and>
      start_time r = Some st \<and> end_time r = Some et \<and> duration r = Some d \<and>
      segment_results r = Some (map (\<lambda>(a, b). clf a b) segs)"
    by (rule_tac x=segs in exI, rule_tac x="?r" in exI, rule_tac x=pre in exI,
        rule_tac x=best in exI, rule_tac x=post in exI) simp
  with select_subset show ?thesis by blast
qed

theorem analyze_scene_long_witness:
  "start_time chase_scene = Some 10 \<and> end_time chase_scene = Some 25 \<and>
   duration chase_scene = Some 15 \<and> (15::real) > 10 \<and> (10::real) < double_sub 25 1 \<and>
   \<bar>10::real\<bar> \<le> 2 ^ 51 \<and> \<bar>25::real\<bar> \<le> 2 ^ 51 \<and>
   segments_loop 10 25 [] = Some [(10, 15), (15, 20), (20, 25)] \<and>
   analyze_scene example_classifier chase_scene = Some (Inr analyzed_chase_scene) \<and>
   (\<exists>pre best post.
      map (\<lambda>(a, b). example_classifier a b) [(10, 15), (15, 20), (20, 25)]
        = pre @ best # post \<and>
      action_type analyzed_chase_scene = Some (res_action_type best) \<and>
      action_confidence analyzed_chase_scene = Some (res_confidence best) \<and>
      segment_results analyzed_chase_scene
        = Some (map (\<lambda>(a, b). example_classifier a b) [(10, 15), (15, 20), (20, 25)])) \<and>
   set (select_sequences_for_supercut [analyzed_chase_scene] 30 0.3 3 60 False None)
     \<subseteq> set [analyzed_chase_scene]"
proof -
  have h: "start_time chase_scene = Some 10" "end_time chase_scene = Some 25"
    "duration chase_scene = Some 15"
    by (simp_all add: chase_scene_def)
  have l: "(10::real) < double_sub 25 1" by (simp add: double_sub_def)
  note t = analyze_scene_long[OF h _ l, of example_classifier "[analyzed_chase_scene]"
      30 "0.3" 3 60 False None]
  have "(\<exists>segs r pre best post.
      segments_loop 10 25 [] = Some segs \<and> segs \<noteq> [] \<and>
      analyze_scene example_classifier chase_scene = Some (Inr r) \<and>
      map (\<lambda>(a, b). example_classifier a b) segs = pre @ best # post \<and>
      (\<forall>x \<in> set pre. res_confidence x < res_confidence best) \<and>
      (\<forall>x \<in> set post. res_confidence x \<le> res_confidence best) \<and>
      action_type r = Some (res_action_type best) \<and>
      action_confidence r = Some (res_confidence best) \<and>
      is_action_scene r = Some (res_is_action best) \<and>
      start_time r = Some 10 \<and> end_time r = Some 25 \<and> duration r = Some 15 \<and>
      segment_results r = Some (map (\<lambda>(a, b). example_classifier a b) segs)) \<and>
    set (select_sequences_for_supercut [analyzed_chase_scene] 30 0.3 3 60 False None)
      \<subseteq> set [analyzed_chase_scene]"
    by (rule t) simp_all
  then obtain pre best post where
    "map (\<lambda>(a, b). example_classifier a b) [(10, 15), (15, 20), (20, 25)] = pre @ best # post"
    "action_type analyzed_chase_scene = Some (res_action_type best)"
    "action_confidence analyzed_chase_scene = Some (res_confidence best)"
    "segment_results analyzed_chase_scene
        = Some (map (\<lambda>(a, b). example_classifier a b) [(10, 15), (15, 20), (20, 25)])"
    and sub: "set (select_sequences_for_supercut [analyzed_chase_scene] 30 0.3 3 60 False None)
      \<subseteq> set [analyzed_chase_scene]"
    unfolding example_segments example_analyze by auto
  then have "\<exists>pre best post.
      map (\<lambda>(a, b). example_classifier a b) [(10, 15), (15, 20), (20, 25)]
        = pre @ best # post \<and>
      action_type analyzed_chase_scene = Some (res_action_type best) \<and>
      action_confidence analyzed_chase_scene = Some (res_confidence best) \<and>
      segment_results analyzed_chase_scene
        = Some (map (\<lambda>(a, b). example_classifier a b) [(10, 15), (15, 20), (20, 25)])"
    by blast
  with h l sub example_segments example_analyze show ?thesis by simp
qed

text \<open>Claim C2 as stated fails where it has the sub-segment records cleared: the
  analysed chase scene carries the classifications of its three windows, and still
  carries them when it comes out of the selection.\<close>

theorem analyze_scene_keeps_segment_results:
  "analyze_scene example_classifier chase_scene = Some (Inr analyzed_chase_scene) \<and>
   segment_results analyzed_chase_scene
     = Some [example_classifier 10 15, example_classifier 15 20, example_classifier 20 25] \<and>
   select_sequences_for_supercut [analyzed_chase_scene] 30 0.3 3 60 False None
     = [analyzed_chase_scene]"
  using example_analyze bound_30
  by (simp add: analyzed_chase_scene_def chase_scene_def eval_defs)

end
